theory Spec2Isabelle
  imports Complex_Main "HOL-Library.Multiset"
begin

section \<open>JavaScript numbers\<close>

text \<open>
  The analytics routes compute with JavaScript Number values, which are IEEE 754 binary64
  floating-point numbers. Every finite binary64 value is an integer multiple of \<open>2^-1074\<close>
  (the least subnormal), so a finite number is modelled by that integer: \<open>Fin k\<close> stands for
  \<open>k * 2^-1074\<close>. A value is a double when \<open>k\<close> has at most 53 significant bits and
  \<open>\<bar>k\<bar> < 2^2098\<close> (the number is below \<open>2^1024\<close>). Every arithmetic operation computes the
  exact result and rounds it to the nearest double, ties to even, as the hardware does.

  The sign of zero is not modelled: the routes divide only by array lengths, and none of
  \<open>||\<close>, \<open>toFixed\<close>, the sort comparators or \<open>JSON.stringify\<close> tells \<open>-0\<close> from \<open>+0\<close>.
\<close>

datatype jsnum = NaN | PosInf | NegInf | Fin int

definition unit_exp :: nat where
  "unit_exp = 1074"

definition one_units :: int where
  "one_units = 2 ^ unit_exp"

definition overflow_units :: int where
  "overflow_units = 2 ^ 2098"

fun bit_length :: "int \<Rightarrow> nat" where
  "bit_length n = (if n \<le> 0 then 0 else Suc (bit_length (n div 2)))"

declare bit_length.simps [simp del]

text \<open>The integer nearest to \<open>p / d\<close> (for \<open>0 \<le> p\<close>, \<open>0 < d\<close>), ties to the even one.\<close>

definition round_ties_even :: "int \<Rightarrow> int \<Rightarrow> int" where
  "round_ties_even p d =
     (let q = p div d; r = p mod d
      in if 2 * r < d then q
         else if d < 2 * r then q + 1
         else if even q then q else q + 1)"

text \<open>
  \<open>round_units p q\<close> rounds the exact value \<open>p / q\<close> (counted in units of \<open>2^-1074\<close>,
  \<open>0 < q\<close>) to a double. The magnitude keeps 53 significant bits: \<open>round_shift\<close> is the
  number of low bits of the integer part that are rounded away, the bit length of the
  integer part minus 53 (none for subnormals and the first normal binades), and
  \<open>round_mag\<close> is the rounded magnitude. A rounded magnitude of \<open>2^1024\<close> or more overflows
  to an infinity.
\<close>

definition round_shift :: "int \<Rightarrow> int \<Rightarrow> nat" where
  "round_shift a q = bit_length (a div q) - 53"

definition round_mag :: "int \<Rightarrow> int \<Rightarrow> int" where
  "round_mag a q = round_ties_even a (q * 2 ^ round_shift a q) * 2 ^ round_shift a q"

definition signed_inf :: "bool \<Rightarrow> jsnum" where
  "signed_inf neg = (if neg then NegInf else PosInf)"

definition round_units :: "int \<Rightarrow> int \<Rightarrow> jsnum" where
  "round_units p q =
     (let m = round_mag \<bar>p\<bar> q
      in if overflow_units \<le> m then signed_inf (p < 0)
         else Fin (if p < 0 then - m else m))"

text \<open>
  The doubles among the integers of units: at most 53 significant bits, below \<open>2^1024\<close>.
  Rounding returns doubles only; a number that enters as a field of a fetched record is
  a double because JSON parsing makes it one.
\<close>

definition is_double :: "int \<Rightarrow> bool" where
  "is_double k = (2 ^ (bit_length \<bar>k\<bar> - 53) dvd k \<and> \<bar>k\<bar> < overflow_units)"

fun is_double_num :: "jsnum \<Rightarrow> bool" where
  "is_double_num (Fin k) = is_double k"
| "is_double_num _ = True"

definition js_of_nat :: "nat \<Rightarrow> jsnum" where
  "js_of_nat n = Fin (int n * one_units)"

fun fl_add :: "jsnum \<Rightarrow> jsnum \<Rightarrow> jsnum" where
  "fl_add NaN _ = NaN"
| "fl_add _ NaN = NaN"
| "fl_add PosInf NegInf = NaN"
| "fl_add NegInf PosInf = NaN"
| "fl_add PosInf _ = PosInf"
| "fl_add _ PosInf = PosInf"
| "fl_add NegInf _ = NegInf"
| "fl_add _ NegInf = NegInf"
| "fl_add (Fin a) (Fin b) = round_units (a + b) 1"

fun fl_neg :: "jsnum \<Rightarrow> jsnum" where
  "fl_neg NaN = NaN"
| "fl_neg PosInf = NegInf"
| "fl_neg NegInf = PosInf"
| "fl_neg (Fin a) = Fin (- a)"

definition fl_sub :: "jsnum \<Rightarrow> jsnum \<Rightarrow> jsnum" where
  "fl_sub x y = fl_add x (fl_neg y)"

fun is_negative :: "jsnum \<Rightarrow> bool" where
  "is_negative NegInf = True"
| "is_negative (Fin a) = (a < 0)"
| "is_negative _ = False"

fun is_positive :: "jsnum \<Rightarrow> bool" where
  "is_positive PosInf = True"
| "is_positive (Fin a) = (0 < a)"
| "is_positive _ = False"

fun fl_mul :: "jsnum \<Rightarrow> jsnum \<Rightarrow> jsnum" where
  "fl_mul NaN _ = NaN"
| "fl_mul _ NaN = NaN"
| "fl_mul (Fin a) (Fin b) = round_units (a * b) one_units"
| "fl_mul x y =
     (if x = Fin 0 \<or> y = Fin 0 then NaN
      else signed_inf (is_negative x \<noteq> is_negative y))"

fun fl_div :: "jsnum \<Rightarrow> jsnum \<Rightarrow> jsnum" where
  "fl_div NaN _ = NaN"
| "fl_div _ NaN = NaN"
| "fl_div (Fin a) (Fin b) =
     (if b = 0 then (if a = 0 then NaN else signed_inf (a < 0))
      else round_units (a * one_units * sgn b) \<bar>b\<bar>)"
| "fl_div (Fin a) _ = Fin 0"
| "fl_div x (Fin b) = signed_inf (is_negative x \<noteq> (b < 0))"
| "fl_div _ _ = NaN"

text \<open>The comparison \<open>x < y\<close> of two numbers; it is false when either is NaN.\<close>

fun num_less :: "jsnum \<Rightarrow> jsnum \<Rightarrow> bool" where
  "num_less NaN _ = False"
| "num_less _ NaN = False"
| "num_less PosInf _ = False"
| "num_less _ PosInf = True"
| "num_less _ NegInf = False"
| "num_less NegInf _ = True"
| "num_less (Fin a) (Fin b) = (a < b)"

text \<open>\<open>x || 0\<close>: NaN and zero are falsy, every other number is kept.\<close>

definition or_zero :: "jsnum \<Rightarrow> jsnum" where
  "or_zero x = (if x = NaN \<or> x = Fin 0 then Fin 0 else x)"

subsection \<open>\<open>Number.prototype.toFixed(2)\<close>\<close>

text \<open>
  \<open>toFixed(2)\<close> returns a string. For a finite \<open>x\<close> with \<open>\<bar>x\<bar> < 10^21\<close> it is the sign
  \<open>-\<close> when \<open>x < 0\<close>, followed by the decimal digits of \<open>n / 100\<close> with two fraction digits,
  where \<open>n\<close> is the integer nearest to \<open>100 * \<bar>x\<bar>\<close> (the larger one on a tie):
  \<open>Fixed2 neg n\<close>. For the other numbers it is the string that \<open>Number::toString\<close> gives
  (\<open>NaN\<close>, \<open>Infinity\<close>, \<open>-Infinity\<close>, or an exponent form): \<open>NumString x\<close>.
\<close>

datatype jsstring = Fixed2 bool int | NumString jsnum

fun toFixed2 :: "jsnum \<Rightarrow> jsstring" where
  "toFixed2 (Fin k) =
     (if 10 ^ 21 * one_units \<le> \<bar>k\<bar> then NumString (Fin k)
      else Fixed2 (k < 0) ((200 * \<bar>k\<bar> + one_units) div (2 * one_units)))"
| "toFixed2 x = NumString x"

text \<open>The characters of \<open>Fixed2 neg n\<close>.\<close>

fun digits_of :: "int \<Rightarrow> string" where
  "digits_of n =
     (if n < 10 then [char_of (48 + n)]
      else digits_of (n div 10) @ [char_of (48 + n mod 10)])"

declare digits_of.simps [simp del]

definition fixed2_text :: "bool \<Rightarrow> int \<Rightarrow> string" where
  "fixed2_text neg n =
     (if neg then ''-'' else '''') @ digits_of (n div 100) @ ''.'' @
     [char_of (48 + n mod 100 div 10), char_of (48 + n mod 10)]"

text \<open>A JSON field that holds either a number or a string made by \<open>toFixed\<close>.\<close>

datatype jsfield = Num jsnum | Str jsstring

subsection \<open>\<open>parseFloat\<close>\<close>

text \<open>
  A field of a fetched record is \<open>null\<close>, a string or a number. \<open>parseFloat\<close> converts
  its argument to a string, skips leading white space and reads the longest prefix that is
  a decimal literal (sign, \<open>Infinity\<close>, or digits with an optional fraction and exponent),
  rounding its value to a double; with no such prefix the result is NaN. The string of
  \<open>null\<close> is \<open>null\<close>, and the string of a number reads back as that number. A
  character of a string is a code unit below 256; the white space and line terminators of
  the language in that range are TAB, LF, VT, FF, CR, SP and the no-break space U+00A0.
\<close>

datatype jsvalue = JNull | JStr string | JNum jsnum

definition is_white :: "char \<Rightarrow> bool" where
  "is_white c = ((of_char c :: nat) \<in> {9, 10, 11, 12, 13, 32, 160})"

definition is_digit :: "char \<Rightarrow> bool" where
  "is_digit c = (48 \<le> (of_char c :: nat) \<and> (of_char c :: nat) \<le> 57)"

definition digits_val :: "string \<Rightarrow> int" where
  "digits_val ds = foldl (\<lambda>n c. 10 * n + (of_char c - 48)) 0 ds"

definition parse_exponent :: "string \<Rightarrow> int" where
  "parse_exponent s =
     (case s of
        [] \<Rightarrow> 0
      | c # r \<Rightarrow>
          if c = CHR ''e'' \<or> c = CHR ''E'' then
            (let neg = (take 1 r = ''-'');
                 r' = (if take 1 r = ''-'' \<or> take 1 r = ''+'' then drop 1 r else r);
                 ds = takeWhile is_digit r'
             in if ds = [] then 0
                else if neg then - digits_val ds else digits_val ds)
          else 0)"

definition parse_unsigned :: "string \<Rightarrow> jsnum" where
  "parse_unsigned s =
     (if take 8 s = ''Infinity'' then PosInf
      else
        let ip = takeWhile is_digit s;
            r1 = dropWhile is_digit s;
            dot = (take 1 r1 = ''.'');
            fp = (if dot then takeWhile is_digit (drop 1 r1) else []);
            r2 = (if dot then dropWhile is_digit (drop 1 r1) else r1)
        in if ip = [] \<and> fp = [] then NaN
           else
             let m = digits_val (ip @ fp);
                 e = parse_exponent r2 - int (length fp)
             in if 0 \<le> e then round_units (m * 10 ^ nat e * one_units) 1
                else round_units (m * one_units) (10 ^ nat (- e)))"

definition parse_string :: "string \<Rightarrow> jsnum" where
  "parse_string s =
     (let t = dropWhile is_white s
      in if take 1 t = ''-'' then fl_neg (parse_unsigned (drop 1 t))
         else if take 1 t = ''+'' then parse_unsigned (drop 1 t)
         else parse_unsigned t)"

fun parseFloat :: "jsvalue \<Rightarrow> jsnum" where
  "parseFloat JNull = parse_string ''null''"
| "parseFloat (JStr s) = parse_string s"
| "parseFloat (JNum x) = (if x = NaN then parse_string ''NaN'' else x)"

section \<open>Records fetched by the routes\<close>

text \<open>
  An order row as the routes read it. \<open>created_at\<close> holds the time value of
  \<open>new Date(order.created_at)\<close> in milliseconds since the epoch, \<open>None\<close> for an invalid
  date. \<open>stores_name\<close> is \<open>order.stores?.name\<close> and \<open>delivery_companies_name\<close> is
  \<open>order.delivery_companies?.name\<close>, \<open>None\<close> when the joined row or its name is missing.
  The references are \<open>None\<close> when the column is \<open>null\<close>.
\<close>

record order =
  order_total :: jsvalue
  status :: "string option"
  created_at :: "int option"
  created_by :: "string option"
  store_id :: "string option"
  stores_name :: "string option"
  delivery_company_id :: "string option"
  delivery_companies_name :: "string option"

record user =
  user_created_at :: "int option"

record campaign =
  campaign_status :: "string option"
  recipients_count :: "jsnum option"
  opened_count :: "jsnum option"
  clicked_count :: "jsnum option"

text \<open>An order row with every column \<open>null\<close>, to build examples from.\<close>

definition null_order :: order where
  "null_order =
     \<lparr> order_total = JNull, status = None, created_at = None, created_by = None,
       store_id = None, stores_name = None, delivery_company_id = None,
       delivery_companies_name = None \<rparr>"

section \<open>GET /overview\<close>

record status_counts =
  pending :: nat
  processing :: nat
  delivered :: nat
  cancelled :: nat

record orders_section =
  orders_total :: nat
  revenue :: jsstring
  average_value :: jsfield
  by_status :: status_counts

record users_section =
  new_users :: nat
  total_users :: nat

record campaigns_section =
  campaigns_total :: nat
  sent :: nat
  total_recipients :: jsnum
  total_opens :: jsnum
  total_clicks :: jsnum

record analytics =
  orders :: orders_section
  users :: users_section
  campaigns :: campaigns_section

text \<open>\<open>orders.reduce((sum, o) => sum + (parseFloat(o.total) || 0), 0)\<close>\<close>

definition revenue_sum :: "order list \<Rightarrow> jsnum" where
  "revenue_sum os =
     foldl (\<lambda>acc x. fl_add acc (or_zero (parseFloat (order_total x)))) (Fin 0) os"

definition count_status :: "string \<Rightarrow> order list \<Rightarrow> nat" where
  "count_status s os = length (filter (\<lambda>x. status x = Some s) os)"

definition status_breakdown :: "order list \<Rightarrow> status_counts" where
  "status_breakdown os =
     \<lparr> pending = count_status ''pending'' os,
       processing = count_status ''processing'' os,
       delivered = count_status ''delivered'' os,
       cancelled = count_status ''cancelled'' os \<rparr>"

text \<open>\<open>c.recipients_count || 0\<close> and the like: \<open>null\<close>, NaN and zero give 0.\<close>

definition count_or_zero :: "jsnum option \<Rightarrow> jsnum" where
  "count_or_zero v = (case v of None \<Rightarrow> Fin 0 | Some x \<Rightarrow> or_zero x)"

definition sum_counts :: "(campaign \<Rightarrow> jsnum option) \<Rightarrow> campaign list \<Rightarrow> jsnum" where
  "sum_counts field cs = foldl (\<lambda>acc c. fl_add acc (count_or_zero (field c))) (Fin 0) cs"

text \<open>The \<open>analytics\<close> object of the overview route (the spec's \<open>summarize\<close>).\<close>

definition overview :: "order list \<Rightarrow> user list \<Rightarrow> campaign list \<Rightarrow> analytics" where
  "overview os us cs =
     \<lparr> orders =
         \<lparr> orders_total = length os,
           revenue = toFixed2 (revenue_sum os),
           average_value =
             (if length os > 0
              then Str (toFixed2 (fl_div (revenue_sum os) (js_of_nat (length os))))
              else Num (Fin 0)),
           by_status = status_breakdown os \<rparr>,
       users = \<lparr> new_users = length us, total_users = length us \<rparr>,
       campaigns =
         \<lparr> campaigns_total = length cs,
           sent = length (filter (\<lambda>c. campaign_status c = Some ''sent'') cs),
           total_recipients = sum_counts recipients_count cs,
           total_opens = sum_counts opened_count cs,
           total_clicks = sum_counts clicked_count cs \<rparr> \<rparr>"

section \<open>GET /conversion-funnel\<close>

text \<open>One stage of the funnel; \<open>stage_count\<close> is its field \<open>count\<close>.\<close>

record funnel_stage =
  stage_count :: nat
  rate :: jsfield

record funnel =
  pending_stage :: funnel_stage
  processing_stage :: funnel_stage
  delivered_stage :: funnel_stage
  cancelled_stage :: funnel_stage

text \<open>\<open>total > 0 ? ((c / total) * 100).toFixed(2) : 0\<close>\<close>

definition stage_rate :: "nat \<Rightarrow> nat \<Rightarrow> jsfield" where
  "stage_rate c n =
     (if n > 0
      then Str (toFixed2 (fl_mul (fl_div (js_of_nat c) (js_of_nat n)) (js_of_nat 100)))
      else Num (Fin 0))"

definition stage :: "nat \<Rightarrow> nat \<Rightarrow> funnel_stage" where
  "stage c n = \<lparr> stage_count = c, rate = stage_rate c n \<rparr>"

text \<open>The \<open>funnel\<close> object of the route (the spec's \<open>conversionFunnel\<close>).\<close>

definition conversion_funnel :: "order list \<Rightarrow> funnel" where
  "conversion_funnel os =
     (let f = status_breakdown os; n = length os
      in \<lparr> pending_stage = stage (pending f) n,
           processing_stage = stage (processing f) n,
           delivered_stage = stage (delivered f) n,
           cancelled_stage = stage (cancelled f) n \<rparr>)"

text \<open>
  The value of a rate field in hundredths of a percent point: the number that the string
  \<open>Fixed2 neg n\<close> reads as, times 100, and 100 times the number for a number field (the
  literal 0 of an empty funnel). \<open>rate_sum\<close> adds the four rates of a funnel.
\<close>

fun hundredths :: "jsfield \<Rightarrow> int" where
  "hundredths (Str (Fixed2 neg n)) = (if neg then - n else n)"
| "hundredths (Num (Fin k)) = 100 * k div one_units"
| "hundredths _ = 0"

definition rate_sum :: "funnel \<Rightarrow> int" where
  "rate_sum f =
     hundredths (rate (pending_stage f)) + hundredths (rate (processing_stage f)) +
     hundredths (rate (delivered_stage f)) + hundredths (rate (cancelled_stage f))"

text \<open>
  \<open>rate_close r c n\<close>: the rate field \<open>r\<close> is the percentage of \<open>c\<close> in \<open>n\<close> at two
  decimals: the number 0 when \<open>n\<close> is 0, and otherwise the string of \<open>h\<close> hundredths for
  an \<open>h\<close> within \<open>1/2 + 2^-38\<close> of \<open>10000 * c / n\<close>.
\<close>

fun rate_close :: "jsfield \<Rightarrow> nat \<Rightarrow> nat \<Rightarrow> bool" where
  "rate_close (Str (Fixed2 neg h)) c n =
     (\<not> neg \<and> 0 < n \<and>
      2 ^ 38 * \<bar>h * int n - 10000 * int c\<bar> \<le> (2 ^ 37 + 1) * int n)"
| "rate_close (Num x) c n = (x = Fin 0 \<and> n = 0)"
| "rate_close _ _ _ = False"

definition known_status :: "order \<Rightarrow> bool" where
  "known_status x =
     (status x = Some ''pending'' \<or> status x = Some ''processing'' \<or>
      status x = Some ''delivered'' \<or> status x = Some ''cancelled'')"

section \<open>Objects used as tables, \<open>sort\<close> and \<open>slice\<close>\<close>

text \<open>
  The routes group rows in a plain object, \<open>table[key]\<close>. The model keeps the own
  properties of the object in creation order. A key that is \<open>null\<close> becomes the property
  name \<open>null\<close>. A plain object inherits the properties of \<open>Object.prototype\<close>, which are
  all truthy: for such a name \<open>!table[key]\<close> is false although the table has no entry, so
  no entry is created and the \<open>+=\<close> that follows lands on the inherited value.
\<close>

type_synonym 'v js_object = "(string \<times> 'v) list"

definition property_key :: "string option \<Rightarrow> string" where
  "property_key k = (case k of None \<Rightarrow> ''null'' | Some s \<Rightarrow> s)"

definition object_prototype_names :: "string list" where
  "object_prototype_names =
     [''constructor'', ''__defineGetter__'', ''__defineSetter__'', ''hasOwnProperty'',
      ''__lookupGetter__'', ''__lookupSetter__'', ''isPrototypeOf'',
      ''propertyIsEnumerable'', ''toString'', ''valueOf'', ''__proto__'',
      ''toLocaleString'']"

fun update_entry :: "string \<Rightarrow> ('v \<Rightarrow> 'v) \<Rightarrow> 'v js_object \<Rightarrow> 'v js_object" where
  "update_entry k f [] = []"
| "update_entry k f ((k', v) # r) =
     (if k' = k then (k', f v) # r else (k', v) # update_entry k f r)"

text \<open>
  \<open>if (!table[k]) table[k] = init; table[k] = step(table[k])\<close> for a table whose values
  are objects.
\<close>

definition upsert :: "string \<Rightarrow> 'v \<Rightarrow> ('v \<Rightarrow> 'v) \<Rightarrow> 'v js_object \<Rightarrow> 'v js_object" where
  "upsert k init step tbl =
     (if k \<in> set object_prototype_names then tbl
      else update_entry k step (if map_of tbl k = None then tbl @ [(k, init)] else tbl))"

text \<open>
  \<open>Object.values\<close> lists the properties whose names are array indices (canonical decimal
  integers below \<open>2^32 - 1\<close>: a non-empty digit string without a leading zero, or \<open>0\<close>)
  first, in ascending numeric order, then the others in creation order.
\<close>

definition is_array_index :: "string \<Rightarrow> bool" where
  "is_array_index k =
     (if k = ''0'' then True
      else k \<noteq> [] \<and> list_all is_digit k \<and> take 1 k \<noteq> ''0'' \<and>
           digits_val k < 4294967295)"

definition object_values :: "'v js_object \<Rightarrow> 'v list" where
  "object_values obj =
     map snd (sort_key (\<lambda>e. digits_val (fst e)) (filter (\<lambda>e. is_array_index (fst e)) obj) @
              filter (\<lambda>e. \<not> is_array_index (fst e)) obj)"

text \<open>
  \<open>Array.prototype.sort(compare)\<close> is stable; \<open>a\<close> is placed after \<open>b\<close> only when
  \<open>compare(a, b) > 0\<close>, and a NaN from the comparator counts as 0. The model is the stable
  insertion sort. For a comparator that is a consistent ordering every stable sort returns
  the same array; for an inconsistent one ECMAScript leaves the order to the
  implementation.
\<close>

fun insert_by :: "('a \<Rightarrow> 'a \<Rightarrow> jsnum) \<Rightarrow> 'a \<Rightarrow> 'a list \<Rightarrow> 'a list" where
  "insert_by cmp x [] = [x]"
| "insert_by cmp x (y # ys) =
     (if is_positive (cmp x y) then y # insert_by cmp x ys else x # y # ys)"

definition js_sort :: "('a \<Rightarrow> 'a \<Rightarrow> jsnum) \<Rightarrow> 'a list \<Rightarrow> 'a list" where
  "js_sort cmp xs = foldr (insert_by cmp) xs []"

text \<open>
  \<open>parseInt(s)\<close> with no radix: leading white space, a sign, then hexadecimal digits after
  \<open>0x\<close> or decimal digits; \<open>None\<close> is NaN. The integer is kept exact; the routes pass it
  only to \<open>slice\<close>, which treats every value beyond the array length alike.
\<close>

definition hex_digit_val :: "char \<Rightarrow> int option" where
  "hex_digit_val c =
     (let n = (of_char c :: int)
      in if 48 \<le> n \<and> n \<le> 57 then Some (n - 48)
         else if 65 \<le> n \<and> n \<le> 70 then Some (n - 55)
         else if 97 \<le> n \<and> n \<le> 102 then Some (n - 87)
         else None)"

definition hex_val :: "string \<Rightarrow> int" where
  "hex_val ds = foldl (\<lambda>n c. 16 * n + the (hex_digit_val c)) 0 ds"

definition parseInt :: "string \<Rightarrow> int option" where
  "parseInt s =
     (let t = dropWhile is_white s;
          neg = (take 1 t = ''-'');
          u = (if take 1 t = ''-'' \<or> take 1 t = ''+'' then drop 1 t else t);
          hex = (take 2 u = ''0x'' \<or> take 2 u = ''0X'');
          ds = (if hex then takeWhile (\<lambda>c. hex_digit_val c \<noteq> None) (drop 2 u)
                else takeWhile is_digit u);
          v = (if hex then hex_val ds else digits_val ds)
      in if ds = [] then None else Some (if neg then - v else v))"

text \<open>\<open>xs.slice(0, e)\<close>: NaN counts as 0 and a negative end counts from the end.\<close>

definition slice_to :: "int option \<Rightarrow> 'a list \<Rightarrow> 'a list" where
  "slice_to e xs =
     (case e of
        None \<Rightarrow> []
      | Some n \<Rightarrow> if n < 0 then take (nat (int (length xs) + n)) xs else take (nat n) xs)"

section \<open>GET /top-performers\<close>

text \<open>
  One rollup of the route: \<open>entity_id\<close> and \<open>entity_name\<close> are the fields \<open>store_id\<close> and
  \<open>store_name\<close> of a store rollup, \<open>delivery_id\<close> and \<open>delivery_name\<close> of a delivery
  rollup; the two branches of the handler differ in nothing else but the sort key.
\<close>

record performance =
  entity_id :: "string option"
  entity_name :: string
  total_orders :: nat
  total_revenue :: jsnum

text \<open>\<open>order.stores?.name || 'Unknown'\<close>\<close>

definition name_or_unknown :: "string option \<Rightarrow> string" where
  "name_or_unknown v =
     (case v of None \<Rightarrow> ''Unknown'' | Some s \<Rightarrow> if s = [] then ''Unknown'' else s)"

definition add_order ::
  "(order \<Rightarrow> string option) \<Rightarrow> (order \<Rightarrow> string option) \<Rightarrow>
   performance js_object \<Rightarrow> order \<Rightarrow> performance js_object" where
  "add_order id_of name_of tbl x =
     upsert (property_key (id_of x))
       \<lparr> entity_id = id_of x, entity_name = name_or_unknown (name_of x),
         total_orders = 0, total_revenue = Fin 0 \<rparr>
       (\<lambda>r. r\<lparr> total_orders := total_orders r + 1,
                total_revenue :=
                  fl_add (total_revenue r) (or_zero (parseFloat (order_total x))) \<rparr>)
       tbl"

definition group_orders ::
  "(order \<Rightarrow> string option) \<Rightarrow> (order \<Rightarrow> string option) \<Rightarrow> order list \<Rightarrow>
   performance list" where
  "group_orders id_of name_of os = object_values (foldl (add_order id_of name_of) [] os)"

text \<open>\<open>(a, b) => b.total_revenue - a.total_revenue\<close> and
  \<open>(a, b) => b.total_orders - a.total_orders\<close>\<close>

definition by_revenue :: "performance \<Rightarrow> performance \<Rightarrow> jsnum" where
  "by_revenue a b = fl_sub (total_revenue b) (total_revenue a)"

definition by_orders :: "performance \<Rightarrow> performance \<Rightarrow> jsnum" where
  "by_orders a b = fl_sub (js_of_nat (total_orders b)) (js_of_nat (total_orders a))"

datatype http_error = Status400 string | Status500 string

text \<open>
  The handler with its query parameters \<open>type\<close> and \<open>limit\<close> (\<open>None\<close> when the request
  omits one) and the fetched orders (the spec's \<open>topPerformers\<close>).
\<close>

definition top_performers ::
  "string option \<Rightarrow> string option \<Rightarrow> order list \<Rightarrow> http_error + performance list" where
  "top_performers type_param limit_param os =
     (let ty = (case type_param of None \<Rightarrow> ''stores'' | Some t \<Rightarrow> t);
          limit = (case limit_param of None \<Rightarrow> Some 10 | Some l \<Rightarrow> parseInt l)
      in if ty = ''stores'' then
           Inr (slice_to limit (js_sort by_revenue (group_orders store_id stores_name os)))
         else if ty = ''delivery'' then
           Inr (slice_to limit
                  (js_sort by_orders
                     (group_orders delivery_company_id delivery_companies_name os)))
         else Inl (Status400 ''Invalid type parameter''))"

section \<open>GET /customer-ltv\<close>

text \<open>One customer rollup; \<open>customer_orders\<close> is its field \<open>total_orders\<close>.\<close>

record customer_value =
  customer_id :: string
  customer_orders :: nat
  total_spent :: jsnum

text \<open>\<open>if (!customerId) return;\<close> skips a \<open>null\<close> and an empty reference.\<close>

definition add_customer_order ::
  "customer_value js_object \<Rightarrow> order \<Rightarrow> customer_value js_object" where
  "add_customer_order tbl x =
     (case created_by x of
        None \<Rightarrow> tbl
      | Some c \<Rightarrow>
          if c = [] then tbl
          else upsert c
                 \<lparr> customer_id = c, customer_orders = 0, total_spent = Fin 0 \<rparr>
                 (\<lambda>r. r\<lparr> customer_orders := customer_orders r + 1,
                          total_spent :=
                            fl_add (total_spent r) (or_zero (parseFloat (order_total x))) \<rparr>)
                 tbl)"

text \<open>The orders that carry a customer reference.\<close>

definition has_customer :: "order \<Rightarrow> bool" where
  "has_customer x = (created_by x \<noteq> None \<and> created_by x \<noteq> Some [])"

definition customer_values :: "order list \<Rightarrow> customer_value list" where
  "customer_values os = object_values (foldl add_customer_order [] os)"

definition by_spent :: "customer_value \<Rightarrow> customer_value \<Rightarrow> jsnum" where
  "by_spent a b = fl_sub (total_spent b) (total_spent a)"

record ltv_result =
  average_ltv :: jsfield
  total_customers :: nat
  top_customers :: "customer_value list"

text \<open>The response of the route (the spec's \<open>customerLifetimeValue\<close>).\<close>

definition customer_ltv :: "order list \<Rightarrow> ltv_result" where
  "customer_ltv os =
     (let customers = customer_values os;
          avgLTV =
            (if length customers > 0
             then Str (toFixed2
                    (fl_div (foldl (\<lambda>acc c. fl_add acc (total_spent c)) (Fin 0) customers)
                       (js_of_nat (length customers))))
             else Num (Fin 0))
      in \<lparr> average_ltv = avgLTV,
           total_customers = length customers,
           top_customers = slice_to (Some 10) (js_sort by_spent customers) \<rparr>)"

section \<open>Dates and \<open>groupByPeriod\<close>\<close>

text \<open>
  A valid \<open>Date\<close> is a time value: milliseconds since 1970-01-01T00:00:00Z, at most
  \<open>8.64 * 10^15\<close> in magnitude. The calendar functions are those of ECMAScript
  (\<open>Day\<close>, \<open>WeekDay\<close>, \<open>YearFromTime\<close>, \<open>MonthFromTime\<close>, \<open>DateFromTime\<close>, \<open>MakeDay\<close>),
  computed on the proleptic Gregorian calendar. The local time zone of the host is a
  parameter \<open>tz\<close>: the minutes that local time is ahead of UTC, taken as constant.
\<close>

definition ms_per_day :: int where
  "ms_per_day = 86400000"

definition time_clip :: "int \<Rightarrow> int option" where
  "time_clip t = (if \<bar>t\<bar> \<le> 8640000000000000 then Some t else None)"

definition local_time :: "int \<Rightarrow> int \<Rightarrow> int" where
  "local_time tz t = t + tz * 60000"

definition utc_time :: "int \<Rightarrow> int \<Rightarrow> int" where
  "utc_time tz t = t - tz * 60000"

definition day_of :: "int \<Rightarrow> int" where
  "day_of t = t div ms_per_day"

definition time_within_day :: "int \<Rightarrow> int" where
  "time_within_day t = t mod ms_per_day"

definition week_day :: "int \<Rightarrow> int" where
  "week_day t = (day_of t + 4) mod 7"

text \<open>Year, month (1 to 12) and day of the month of a day number.\<close>

definition civil_from_days :: "int \<Rightarrow> int \<times> int \<times> int" where
  "civil_from_days z0 =
     (let z = z0 + 719468;
          era = z div 146097;
          doe = z mod 146097;
          yoe = (doe - doe div 1460 + doe div 36524 - doe div 146096) div 365;
          doy = doe - (365 * yoe + yoe div 4 - yoe div 100);
          mp = (5 * doy + 2) div 153;
          d = doy - (153 * mp + 2) div 5 + 1;
          m = (if mp < 10 then mp + 3 else mp - 9);
          y = yoe + era * 400 + (if m \<le> 2 then 1 else 0)
      in (y, m, d))"

text \<open>The day number of a year, month (1 to 12) and day of the month.\<close>

definition days_from_civil :: "int \<Rightarrow> int \<Rightarrow> int \<Rightarrow> int" where
  "days_from_civil y0 m d =
     (let y = (if m \<le> 2 then y0 - 1 else y0);
          era = y div 400;
          yoe = y mod 400;
          doy = (153 * (if m > 2 then m - 3 else m + 9) + 2) div 5 + d - 1;
          doe = yoe * 365 + yoe div 4 - yoe div 100 + doy
      in era * 146097 + doe - 719468)"

definition getFullYear :: "int \<Rightarrow> int \<Rightarrow> int" where
  "getFullYear tz t = fst (civil_from_days (day_of (local_time tz t)))"

text \<open>\<open>getMonth() + 1\<close>\<close>

definition month_number :: "int \<Rightarrow> int \<Rightarrow> int" where
  "month_number tz t = fst (snd (civil_from_days (day_of (local_time tz t))))"

definition getDate :: "int \<Rightarrow> int \<Rightarrow> int" where
  "getDate tz t = snd (snd (civil_from_days (day_of (local_time tz t))))"

definition getDay :: "int \<Rightarrow> int \<Rightarrow> int" where
  "getDay tz t = week_day (local_time tz t)"

text \<open>
  \<open>setDate(dt)\<close>: the day \<open>dt\<close> of the local month of \<open>t\<close> (days before the first or
  after the last count into the neighbouring months), at the local time of day of \<open>t\<close>;
  the date becomes invalid when the result leaves the range of time values.
\<close>

definition setDate :: "int \<Rightarrow> int \<Rightarrow> int \<Rightarrow> int option" where
  "setDate tz t dt =
     (let lt = local_time tz t;
          (y, m, d) = civil_from_days (day_of lt);
          new_day = days_from_civil y m 1 + dt - 1
      in time_clip (utc_time tz (new_day * ms_per_day + time_within_day lt)))"

definition pad_left :: "nat \<Rightarrow> string \<Rightarrow> string" where
  "pad_left n s = replicate (n - length s) CHR ''0'' @ s"

definition int_text :: "int \<Rightarrow> string" where
  "int_text n = (if n < 0 then ''-'' @ digits_of (- n) else digits_of n)"

text \<open>
  \<open>toISOString().split('T')[0]\<close>: the UTC date, with a four-digit year from 0 to 9999 and
  a signed six-digit year otherwise.
\<close>

definition iso_date :: "int \<Rightarrow> string" where
  "iso_date t =
     (let (y, m, d) = civil_from_days (day_of t);
          year = (if 0 \<le> y \<and> y \<le> 9999 then pad_left 4 (digits_of y)
                  else (if y < 0 then ''-'' else ''+'') @ pad_left 6 (digits_of \<bar>y\<bar>))
      in year @ ''-'' @ pad_left 2 (digits_of m) @ ''-'' @ pad_left 2 (digits_of d))"

datatype exception = RangeError | TypeError

text \<open>
  The key that \<open>groupByPeriod\<close> gives an order; \<open>Inr None\<close> is the key \<open>undefined\<close> that
  remains when no branch assigns it. \<open>toISOString\<close> throws a \<open>RangeError\<close> on an invalid
  date, while the getters return NaN.
\<close>

definition period_key :: "int \<Rightarrow> string \<Rightarrow> int option \<Rightarrow> exception + string option" where
  "period_key tz period date =
     (if period = ''day'' then
        (case date of None \<Rightarrow> Inl RangeError | Some t \<Rightarrow> Inr (Some (iso_date t)))
      else if period = ''week'' then
        (case date of
           None \<Rightarrow> Inl RangeError
         | Some t \<Rightarrow>
             (case setDate tz t (getDate tz t - getDay tz t) of
                None \<Rightarrow> Inl RangeError
              | Some weekStart \<Rightarrow> Inr (Some (iso_date weekStart))))
      else if period = ''month'' then
        (case date of
           None \<Rightarrow> Inr (Some ''NaN-NaN'')
         | Some t \<Rightarrow>
             Inr (Some (int_text (getFullYear tz t) @ ''-'' @
                        pad_left 2 (int_text (month_number tz t)))))
      else if period = ''year'' then
        (case date of
           None \<Rightarrow> Inr (Some ''NaN'')
         | Some t \<Rightarrow> Inr (Some (int_text (getFullYear tz t))))
      else Inr None)"

record bucket =
  period :: "string option"
  bucket_revenue :: jsnum
  bucket_orders :: nat

definition key_name :: "string option \<Rightarrow> string" where
  "key_name k = (case k of None \<Rightarrow> ''undefined'' | Some s \<Rightarrow> s)"

text \<open>The body of the \<open>forEach\<close>: an exception leaves the loop.\<close>

definition add_to_bucket ::
  "int \<Rightarrow> string \<Rightarrow> exception + bucket js_object \<Rightarrow> order \<Rightarrow> exception + bucket js_object" where
  "add_to_bucket tz p acc x =
     (case acc of
        Inl e \<Rightarrow> Inl e
      | Inr grouped \<Rightarrow>
          (case period_key tz p (created_at x) of
             Inl e \<Rightarrow> Inl e
           | Inr key \<Rightarrow>
               Inr (upsert (key_name key)
                      \<lparr> period = key, bucket_revenue = Fin 0, bucket_orders = 0 \<rparr>
                      (\<lambda>b. b\<lparr> bucket_revenue :=
                                 fl_add (bucket_revenue b)
                                   (or_zero (parseFloat (order_total x))),
                               bucket_orders := bucket_orders b + 1 \<rparr>)
                      grouped)))"

text \<open>
  \<open>a.localeCompare(b)\<close> as a number: the model compares character codes, which is the
  order of the keys made by the grouping loops (digits, with \<open>-\<close>, a space and \<open>:\<close> in one
  fixed layout).
\<close>

fun string_less :: "string \<Rightarrow> string \<Rightarrow> bool" where
  "string_less [] [] = False"
| "string_less [] (b # bs) = True"
| "string_less (a # as) [] = False"
| "string_less (a # as) (b # bs) =
     ((of_char a :: nat) < of_char b \<or> (a = b \<and> string_less as bs))"

definition localeCompare :: "string \<Rightarrow> string \<Rightarrow> jsnum" where
  "localeCompare a b =
     (if string_less a b then Fin (- one_units)
      else if string_less b a then Fin one_units else Fin 0)"

text \<open>
  \<open>Object.values(grouped).sort((a, b) => a.period.localeCompare(b.period))\<close>: the
  comparator runs only on an array of two or more buckets, and throws a \<open>TypeError\<close> on a
  period that is \<open>undefined\<close>.
\<close>

definition sort_buckets :: "bucket list \<Rightarrow> exception + bucket list" where
  "sort_buckets bs =
     (if length bs \<le> 1 then Inr bs
      else if list_ex (\<lambda>b. period b = None) bs then Inl TypeError
      else Inr (js_sort (\<lambda>a b. localeCompare (the (period a)) (the (period b))) bs))"

definition groupByPeriod :: "int \<Rightarrow> order list \<Rightarrow> string \<Rightarrow> exception + bucket list" where
  "groupByPeriod tz os p =
     (case foldl (add_to_bucket tz p) (Inr []) os of
        Inl e \<Rightarrow> Inl e
      | Inr grouped \<Rightarrow> sort_buckets (object_values grouped))"

text \<open>
  The revenue route: \<open>period\<close> defaults to \<open>month\<close>, and an exception becomes the
  response 500.
\<close>

definition revenue_route :: "int \<Rightarrow> string option \<Rightarrow> order list \<Rightarrow> http_error + bucket list" where
  "revenue_route tz period_param os =
     (case groupByPeriod tz os (case period_param of None \<Rightarrow> ''month'' | Some p \<Rightarrow> p) of
        Inl e \<Rightarrow> Inl (Status500 ''Failed to get revenue analytics'')
      | Inr groupedData \<Rightarrow> Inr groupedData)"

section \<open>\<open>groupOrdersByPeriod\<close>\<close>

text \<open>
  The key that \<open>groupOrdersByPeriod\<close> gives an order: the UTC date for \<open>day\<close>, the UTC date
  followed by the local hour for \<open>hour\<close>, and \<open>undefined\<close> for any other unit.
\<close>

definition getHours :: "int \<Rightarrow> int \<Rightarrow> int" where
  "getHours tz t = time_within_day (local_time tz t) div 3600000"

definition trend_key :: "int \<Rightarrow> string \<Rightarrow> int option \<Rightarrow> exception + string option" where
  "trend_key tz p date =
     (if p = ''day'' then
        (case date of None \<Rightarrow> Inl RangeError | Some t \<Rightarrow> Inr (Some (iso_date t)))
      else if p = ''hour'' then
        (case date of
           None \<Rightarrow> Inl RangeError
         | Some t \<Rightarrow>
             Inr (Some (iso_date t @ '' '' @ pad_left 2 (int_text (getHours tz t)) @ '':00'')))
      else Inr None)"

text \<open>
  A bucket of the trends is an object that the loop also indexes by the status of each
  order, \<open>bucket[order.status]\<close>, so the model keeps its own properties as a table from
  names to values. A value is a number, a string or \<open>undefined\<close>.
\<close>

datatype property = Undefined | Number jsnum | Text string

type_synonym trend_bucket = "property js_object"

definition new_trend_bucket :: "string option \<Rightarrow> trend_bucket" where
  "new_trend_bucket key =
     [(''period'', case key of None \<Rightarrow> Undefined | Some s \<Rightarrow> Text s),
      (''total'', Number (Fin 0)), (''pending'', Number (Fin 0)),
      (''processing'', Number (Fin 0)), (''delivered'', Number (Fin 0)),
      (''cancelled'', Number (Fin 0))]"

text \<open>
  Reading \<open>bucket[name]\<close>: the own property, else the property inherited from
  \<open>Object.prototype\<close>, else \<open>undefined\<close>. The inherited values are functions, and the
  prototype itself under \<open>__proto__\<close>; all the loop does with one is test that it is truthy
  and add 1 to it, which are the same on its string, so the model reads it as that string.
\<close>

definition inherited_text :: "string \<Rightarrow> string" where
  "inherited_text name =
     (if name = ''__proto__'' then ''[object Object]''
      else ''function '' @ (if name = ''constructor'' then ''Object'' else name) @
           ''() { [native code] }'')"

definition get_property :: "string \<Rightarrow> trend_bucket \<Rightarrow> property" where
  "get_property name b =
     (case map_of b name of
        Some v \<Rightarrow> v
      | None \<Rightarrow> if name \<in> set object_prototype_names then Text (inherited_text name)
                else Undefined)"

text \<open>
  Writing \<open>bucket[name] = v\<close> for a number or a string \<open>v\<close>: the setter of \<open>__proto__\<close>
  ignores such a value; any other name becomes or stays an own property.
\<close>

definition set_property :: "string \<Rightarrow> property \<Rightarrow> trend_bucket \<Rightarrow> trend_bucket" where
  "set_property name v b =
     (if name = ''__proto__'' then b
      else if map_of b name = None then b @ [(name, v)]
      else update_entry name (\<lambda>old. v) b)"

text \<open>\<open>v || 0\<close> and \<open>v + 1\<close>: \<open>+\<close> appends to a string, and \<open>undefined + 1\<close> is NaN.\<close>

fun truthy :: "property \<Rightarrow> bool" where
  "truthy Undefined = False"
| "truthy (Number x) = (x \<noteq> NaN \<and> x \<noteq> Fin 0)"
| "truthy (Text s) = (s \<noteq> [])"

definition property_or_zero :: "property \<Rightarrow> property" where
  "property_or_zero v = (if truthy v then v else Number (Fin 0))"

fun plus_one :: "property \<Rightarrow> property" where
  "plus_one Undefined = Number NaN"
| "plus_one (Number x) = Number (fl_add x (js_of_nat 1))"
| "plus_one (Text s) = Text (s @ ''1'')"

text \<open>
  \<open>bucket.total += 1; bucket[order.status] = (bucket[order.status] || 0) + 1\<close>. A status
  outside the four initial counters creates a counter of its own, the status \<open>null\<close> under
  the name \<open>null\<close>; the status \<open>total\<close> counts the order twice, and the status \<open>period\<close>
  rewrites the period of the bucket.
\<close>

definition count_order :: "string option \<Rightarrow> trend_bucket \<Rightarrow> trend_bucket" where
  "count_order st b =
     (let b1 = set_property ''total'' (plus_one (get_property ''total'' b)) b;
          name = property_key st
      in set_property name (plus_one (property_or_zero (get_property name b1))) b1)"

definition add_to_trend ::
  "int \<Rightarrow> string \<Rightarrow> exception + trend_bucket js_object \<Rightarrow> order \<Rightarrow>
   exception + trend_bucket js_object" where
  "add_to_trend tz p acc x =
     (case acc of
        Inl e \<Rightarrow> Inl e
      | Inr grouped \<Rightarrow>
          (case trend_key tz p (created_at x) of
             Inl e \<Rightarrow> Inl e
           | Inr key \<Rightarrow>
               Inr (upsert (key_name key) (new_trend_bucket key) (count_order (status x))
                      grouped)))"

text \<open>
  \<open>Object.values(grouped).sort((a, b) => a.period.localeCompare(b.period))\<close>: the
  comparator runs only on an array of two or more buckets, and throws a \<open>TypeError\<close> on a
  period that is not a string. Two buckets exist only for the units \<open>day\<close> and \<open>hour\<close>,
  whose periods are strings and stay strings.
\<close>

fun is_text :: "property \<Rightarrow> bool" where
  "is_text (Text s) = True"
| "is_text v = False"

fun text_of :: "property \<Rightarrow> string" where
  "text_of (Text s) = s"
| "text_of v = []"

definition sort_trends :: "trend_bucket list \<Rightarrow> exception + trend_bucket list" where
  "sort_trends bs =
     (if length bs \<le> 1 then Inr bs
      else if list_ex (\<lambda>b. \<not> is_text (get_property ''period'' b)) bs then Inl TypeError
      else Inr (js_sort (\<lambda>a b. localeCompare (text_of (get_property ''period'' a))
                                  (text_of (get_property ''period'' b))) bs))"

definition groupOrdersByPeriod ::
  "int \<Rightarrow> order list \<Rightarrow> string \<Rightarrow> exception + trend_bucket list" where
  "groupOrdersByPeriod tz os p =
     (case foldl (add_to_trend tz p) (Inr []) os of
        Inl e \<Rightarrow> Inl e
      | Inr grouped \<Rightarrow> sort_trends (object_values grouped))"

text \<open>
  The trends route: \<open>period\<close> defaults to \<open>day\<close>, and an exception becomes the
  response 500.
\<close>

definition trends_route ::
  "int \<Rightarrow> string option \<Rightarrow> order list \<Rightarrow> http_error + trend_bucket list" where
  "trends_route tz period_param os =
     (case groupOrdersByPeriod tz os (case period_param of None \<Rightarrow> ''day'' | Some p \<Rightarrow> p) of
        Inl e \<Rightarrow> Inl (Status500 ''Failed to get order trends'')
      | Inr trends \<Rightarrow> Inr trends)"

section \<open>Example data of the specification\<close>

text \<open>
  Stores A (two orders, revenue 300) and B (one order, revenue 500); the orders of A go
  through delivery company X and the order of B through Y.
\<close>

definition example_orders :: "order list" where
  "example_orders =
     [null_order\<lparr> store_id := Some ''A'', stores_name := Some ''Alpha'',
                  delivery_company_id := Some ''X'',
                  delivery_companies_name := Some ''Xpress'',
                  order_total := JStr ''100'' \<rparr>,
      null_order\<lparr> store_id := Some ''B'', stores_name := Some ''Beta'',
                  delivery_company_id := Some ''Y'',
                  delivery_companies_name := Some ''Yonder'',
                  order_total := JStr ''500'' \<rparr>,
      null_order\<lparr> store_id := Some ''A'', stores_name := Some ''Alpha'',
                  delivery_company_id := Some ''X'',
                  delivery_companies_name := Some ''Xpress'',
                  order_total := JStr ''200'' \<rparr>]"

text \<open>Orders in the first three stages of the funnel.\<close>

definition pending_order :: order where
  "pending_order = null_order\<lparr> status := Some ''pending'' \<rparr>"

definition processing_order :: order where
  "processing_order = null_order\<lparr> status := Some ''processing'' \<rparr>"

definition delivered_order :: order where
  "delivered_order = null_order\<lparr> status := Some ''delivered'' \<rparr>"

text \<open>One pending, one processing and one delivered order; and one pending, three
  processing and three delivered orders.\<close>

definition three_orders :: "order list" where
  "three_orders = [pending_order, processing_order, delivered_order]"

definition seven_orders :: "order list" where
  "seven_orders =
     [pending_order, processing_order, processing_order, processing_order,
      delivered_order, delivered_order, delivered_order]"

text \<open>An order of ten quadrillion and an order of one.\<close>

definition big_order :: order where
  "big_order = null_order\<lparr> order_total := JStr ''10000000000000000'' \<rparr>"

definition unit_order :: order where
  "unit_order = null_order\<lparr> order_total := JStr ''1'' \<rparr>"

section \<open>Properties\<close>

subsection \<open>Basic facts\<close>

lemma one_units_pos: "0 < one_units"
  by (simp add: one_units_def)

lemma toFixed2_zero: "toFixed2 (Fin 0) = Fixed2 False 0"
  using one_units_pos by simp

lemma slice_to_Nil: "slice_to e [] = []"
  by (simp add: slice_to_def split: option.split)

lemma object_values_Nil: "object_values [] = []"
  by (simp add: object_values_def)

lemma js_sort_Nil: "js_sort cmp [] = []"
  by (simp add: js_sort_def)

subsection \<open>Rounding to a double\<close>

lemma bit_length_bounds:
  "0 < n \<Longrightarrow> 2 ^ (bit_length n - 1) \<le> n \<and> n < 2 ^ bit_length n"
proof (induction n rule: bit_length.induct)
  case (1 n)
  show ?case
  proof (cases "n div 2 = 0")
    case True
    with 1(2) have "n = 1" by presburger
    then show ?thesis by (simp add: bit_length.simps)
  next
    case False
    with 1(2) have pos: "0 < n div 2" by presburger
    from 1(1) pos 1(2) have ih: "2 ^ (bit_length (n div 2) - 1) \<le> n div 2 \<and> n div 2 < 2 ^ bit_length (n div 2)"
      by simp
    have bl: "bit_length n = Suc (bit_length (n div 2))"
      using 1(2) by (subst bit_length.simps) simp
    have "0 < bit_length (n div 2)"
      using pos by (subst bit_length.simps) simp
    then obtain k where k: "bit_length (n div 2) = Suc k"
      by (cases "bit_length (n div 2)") auto
    from ih k have "2 * 2 ^ k \<le> n" "n < 2 * (2 * 2 ^ k)"
      by (simp_all, presburger+)
    then show ?thesis by (simp add: bl k)
  qed
qed

lemma bit_length_le: "n < 2 ^ k \<Longrightarrow> bit_length n \<le> k"
proof (cases "0 < n")
  case True
  assume "n < 2 ^ k"
  with bit_length_bounds[OF True] have "(2::int) ^ (bit_length n - 1) < 2 ^ k" by linarith
  then have "bit_length n - 1 < k" by (simp add: power_strict_increasing_iff)
  then show ?thesis by linarith
next
  case False
  then show ?thesis by (subst bit_length.simps) simp
qed

lemma bit_length_gt: "2 ^ k \<le> n \<Longrightarrow> k < bit_length n"
proof -
  assume a: "2 ^ k \<le> n"
  then have "0 < n" by (smt (verit) zero_less_power)
  with bit_length_bounds have "n < 2 ^ bit_length n" by blast
  with a have "(2::int) ^ k < 2 ^ bit_length n" by linarith
  then show ?thesis by (simp add: power_strict_increasing_iff)
qed



lemma round_ties_even_range:
  assumes "0 < d"
  shows "p div d \<le> round_ties_even p d" and "round_ties_even p d \<le> p div d + 1"
  by (simp_all add: round_ties_even_def Let_def)

lemma int_le_div: "0 < (d::int) \<Longrightarrow> l * d \<le> p \<Longrightarrow> l \<le> p div d"
proof -
  assume d: "0 < d" and le: "l * d \<le> p"
  have "(l * d) div d \<le> p div d" using le d by (rule zdiv_mono1)
  with d show ?thesis by simp
qed

lemma int_div_less: "0 < (d::int) \<Longrightarrow> p < h * d \<Longrightarrow> p div d < h"
proof -
  assume d: "0 < d" and lt: "p < h * d"
  have "p = (p div d) * d + p mod d" by simp
  moreover have "0 \<le> p mod d" using d by simp
  ultimately have "(p div d) * d \<le> p" by linarith
  with lt have "(p div d) * d < h * d" by linarith
  with d show ?thesis by (simp add: mult_less_cancel_right)
qed

lemma round_ties_even_error:
  assumes "0 < d"
  shows "2 * \<bar>round_ties_even p d * d - p\<bar> \<le> d"
proof -
  have eq: "p = (p div d) * d + p mod d" by simp
  have r: "0 \<le> p mod d" "p mod d < d" using assms by simp_all
  have a: "(p div d) * d - p = - (p mod d)" using eq by linarith
  have b: "(p div d + 1) * d - p = d - p mod d" using eq by (simp add: algebra_simps)
  show ?thesis
    unfolding round_ties_even_def Let_def a b using r
    by (simp split: if_splits) (smt (verit, best) b eq)
qed

lemma round_ties_even_exact:
  assumes "0 < d" "d dvd p"
  shows "round_ties_even p d * d = p"
proof -
  from assms(2) have "p mod d = 0" by simp
  with assms show ?thesis by (simp add: round_ties_even_def Let_def)
qed

lemma round_ties_even_lower:
  assumes "0 < d" "l * d \<le> p"
  shows "l \<le> round_ties_even p d"
  using int_le_div[OF assms] round_ties_even_range(1)[OF assms(1), of p] by linarith

lemma round_ties_even_upper:
  assumes "0 < d" "p \<le> h * d"
  shows "round_ties_even p d \<le> h"
proof (cases "p = h * d")
  case True
  with round_ties_even_exact[of d p] assms(1) have "round_ties_even p d * d = h * d" by simp
  with assms(1) show ?thesis by simp
next
  case False
  with assms have lt: "p < h * d" by simp
  from int_div_less[OF assms(1) lt] round_ties_even_range(2)[OF assms(1), of p]
  show ?thesis by linarith
qed

lemma round_shift_zero:
  assumes "0 \<le> a" "0 < q" "round_shift a q = 0"
  shows "a < 2 ^ 53 * q"
proof -
  from assms(3) have "bit_length (a div q) \<le> 53" by (simp add: round_shift_def)
  have "a div q < 2 ^ 53"
  proof (cases "0 < a div q")
    case True
    from bit_length_bounds[OF True] have "a div q < 2 ^ bit_length (a div q)" by simp
    also have "\<dots> \<le> (2::int) ^ 53"
      using \<open>bit_length (a div q) \<le> 53\<close> by (intro power_increasing) simp_all
    finally show ?thesis .
  next
    case False
    then show ?thesis by simp
  qed
  then have "a div q + 1 \<le> 2 ^ 53" by simp
  have "(a div q) * q + a mod q = a" by simp
  moreover have "a mod q < q" using assms(2) by simp
  moreover have "(a div q + 1) * q = (a div q) * q + q" by (simp add: algebra_simps)
  ultimately have "a < (a div q + 1) * q" by linarith
  also have "\<dots> \<le> 2 ^ 53 * q"
    using \<open>a div q + 1 \<le> 2 ^ 53\<close> assms(2) by (simp add: mult_right_mono)
  finally show ?thesis .
qed

lemma round_shift_pos:
  assumes "0 < q" "0 < round_shift a q"
  shows "2 ^ (52 + round_shift a q) * q \<le> a" and "a < 2 ^ (53 + round_shift a q) * q"
proof -
  let ?f = "a div q"
  from assms(2) have bl: "bit_length ?f = 53 + round_shift a q"
    by (simp add: round_shift_def)
  then have "0 < ?f" by (subst (asm) bit_length.simps) (simp split: if_splits)
  from bit_length_bounds[OF this] bl
  have lo: "2 ^ (52 + round_shift a q) \<le> ?f" and hi: "?f < 2 ^ (53 + round_shift a q)"
    by simp_all
  have eq: "?f * q + a mod q = a" by simp
  have m: "0 \<le> a mod q" "a mod q < q" using assms(1) by simp_all
  have ds: "(?f + 1) * q = ?f * q + q" by (simp add: algebra_simps)
  have "2 ^ (52 + round_shift a q) * q \<le> ?f * q"
    using lo assms(1) by (simp add: mult_right_mono)
  with eq m show "2 ^ (52 + round_shift a q) * q \<le> a" by linarith
  from hi have "?f + 1 \<le> 2 ^ (53 + round_shift a q)" by simp
  then have "(?f + 1) * q \<le> 2 ^ (53 + round_shift a q) * q"
    using assms(1) by (simp add: mult_right_mono)
  moreover have "a < (?f + 1) * q" using eq m ds by linarith
  ultimately show "a < 2 ^ (53 + round_shift a q) * q" by linarith
qed



lemma round_mag_error:
  assumes "0 < q"
  shows "2 * \<bar>round_mag a q * q - a\<bar> \<le> q * 2 ^ round_shift a q"
proof -
  let ?d = "q * 2 ^ round_shift a q"
  have d: "0 < ?d" using assms by simp
  have "round_mag a q * q = round_ties_even a ?d * ?d"
    by (simp add: round_mag_def algebra_simps)
  then show ?thesis using round_ties_even_error[OF d, of a] by (simp only:)
qed

lemma round_mag_relative_error:
  assumes "0 < q" "0 < round_shift a q"
  shows "\<bar>round_mag a q * q - a\<bar> * 2 ^ 53 \<le> a"
proof -
  let ?s = "round_shift a q"
  let ?e = "\<bar>round_mag a q * q - a\<bar>"
  have "?e * 2 ^ 53 = 2 ^ 52 * (2 * ?e)" by simp
  also have "\<dots> \<le> 2 ^ 52 * (q * 2 ^ ?s)"
    using round_mag_error[OF assms(1), of a] by (intro mult_left_mono) simp_all
  also have "\<dots> = 2 ^ (52 + ?s) * q" by (simp add: power_add)
  also have "\<dots> \<le> a" using round_shift_pos(1)[OF assms] .
  finally show ?thesis .
qed

lemma round_mag_range:
  assumes "0 \<le> a" "0 < q"
  shows "0 \<le> round_mag a q"
    and "round_mag a q \<le> 2 ^ (53 + round_shift a q)"
    and "\<exists>r. round_mag a q = r * 2 ^ round_shift a q \<and> 0 \<le> r \<and> r \<le> 2 ^ 53"
    and "0 < round_shift a q \<Longrightarrow> 2 ^ (52 + round_shift a q) \<le> round_mag a q"
proof -
  let ?s = "round_shift a q"
  let ?d = "q * 2 ^ ?s"
  let ?r = "round_ties_even a ?d"
  have d: "0 < ?d" using assms by simp
  have "0 * ?d \<le> a" using assms by simp
  from round_ties_even_lower[OF d this] have r0: "0 \<le> ?r" .
  have "a \<le> 2 ^ 53 * ?d"
  proof (cases "?s = 0")
    case True
    with round_shift_zero[OF assms] show ?thesis by simp
  next
    case False
    then have "0 < ?s" by simp
    from round_shift_pos(2)[OF assms(2) this] show ?thesis by (simp add: power_add algebra_simps)
  qed
  from round_ties_even_upper[OF d this] have r1: "?r \<le> 2 ^ 53" .
  show "0 \<le> round_mag a q" using r0 by (simp add: round_mag_def)
  have "?r * 2 ^ ?s \<le> 2 ^ 53 * 2 ^ ?s" using r1 by (intro mult_right_mono) simp_all
  then show "round_mag a q \<le> 2 ^ (53 + ?s)" by (simp add: round_mag_def power_add)
  show "\<exists>r. round_mag a q = r * 2 ^ ?s \<and> 0 \<le> r \<and> r \<le> 2 ^ 53"
    using r0 r1 unfolding round_mag_def by blast
  show "2 ^ (52 + ?s) \<le> round_mag a q" if "0 < ?s"
  proof -
    have "2 ^ 52 * ?d \<le> a"
      using round_shift_pos(1)[OF assms(2) that] by (simp add: power_add algebra_simps)
    from round_ties_even_lower[OF d this] have "2 ^ 52 \<le> ?r" .
    then have "2 ^ 52 * 2 ^ ?s \<le> ?r * 2 ^ ?s" by (intro mult_right_mono) simp_all
    then show ?thesis by (simp add: round_mag_def power_add)
  qed
qed

lemma significand_dvd:
  assumes "0 \<le> r" "r \<le> 2 ^ 53"
  shows "2 ^ (bit_length (r * 2 ^ s) - 53) dvd r * 2 ^ s"
proof (cases "r = 2 ^ 53")
  case True
  then have m: "r * 2 ^ s = 2 ^ (53 + s)" by (simp add: power_add)
  have "(2::int) ^ (53 + s) < 2 ^ (54 + s)" by (intro power_strict_increasing) simp_all
  from bit_length_le[OF this] have "bit_length (r * 2 ^ s) - 53 \<le> 53 + s"
    unfolding m by simp
  then have "(2::int) ^ (bit_length (r * 2 ^ s) - 53) dvd 2 ^ (53 + s)"
    by (rule le_imp_power_dvd)
  then show ?thesis unfolding m .
next
  case False
  with assms have "r < 2 ^ 53" by simp
  then have "r * 2 ^ s < 2 ^ 53 * 2 ^ s" by (intro mult_strict_right_mono) simp_all
  then have "r * 2 ^ s < 2 ^ (53 + s)" by (simp add: power_add)
  from bit_length_le[OF this] have "bit_length (r * 2 ^ s) - 53 \<le> s" by simp
  then have "(2::int) ^ (bit_length (r * 2 ^ s) - 53) dvd 2 ^ s"
    by (rule le_imp_power_dvd)
  then show ?thesis by (rule dvd_mult)
qed

lemma round_mag_significand:
  assumes "0 \<le> a" "0 < q"
  shows "2 ^ (bit_length (round_mag a q) - 53) dvd round_mag a q"
proof -
  from round_mag_range(3)[OF assms] obtain r
    where "round_mag a q = r * 2 ^ round_shift a q" "0 \<le> r" "r \<le> 2 ^ 53" by blast
  with significand_dvd[of r "round_shift a q"] show ?thesis by simp
qed

lemma round_mag_exact:
  assumes "0 \<le> a" "2 ^ (bit_length a - 53) dvd a"
  shows "round_mag a 1 = a"
proof -
  have s: "round_shift a 1 = bit_length a - 53" by (simp add: round_shift_def)
  have "round_ties_even a (2 ^ round_shift a 1) * 2 ^ round_shift a 1 = a"
    using assms(2) unfolding s by (intro round_ties_even_exact) simp_all
  then show ?thesis by (simp add: round_mag_def)
qed

lemma round_mag_zero: "0 < q \<Longrightarrow> round_mag 0 q = 0"
  by (simp add: round_mag_def round_shift_def round_ties_even_def bit_length.simps)

lemma round_mag_pos:
  assumes "0 < a"
  shows "0 < round_mag a 1"
proof (cases "round_shift a 1 = 0")
  case True
  then have "round_mag a 1 = a"
    by (simp add: round_mag_def round_ties_even_def)
  with assms show ?thesis by simp
next
  case False
  then have "0 < round_shift a 1" by simp
  from round_mag_range(4)[OF _ _ this] assms
  have "2 ^ (52 + round_shift a 1) \<le> round_mag a 1" by simp
  moreover have "(0::int) < 2 ^ (52 + round_shift a 1)" by simp
  ultimately show ?thesis by linarith
qed


lemma is_double_zero: "is_double 0"
  by (simp add: is_double_def overflow_units_def)

lemma round_units_double:
  assumes "0 < q"
  shows "is_double_num (round_units p q)"
proof -
  define m where "m = round_mag \<bar>p\<bar> q"
  have m0: "0 \<le> m" using round_mag_range(1)[of "\<bar>p\<bar>" q] assms by (simp add: m_def)
  have dv: "2 ^ (bit_length m - 53) dvd m"
    using round_mag_significand[of "\<bar>p\<bar>" q] assms by (simp add: m_def)
  have ru: "round_units p q =
      (if overflow_units \<le> m then signed_inf (p < 0) else Fin (if p < 0 then - m else m))"
    by (simp add: round_units_def m_def)
  show ?thesis
  proof (cases "overflow_units \<le> m")
    case True
    then show ?thesis by (simp add: ru signed_inf_def)
  next
    case False
    with m0 dv show ?thesis
      by (simp add: ru is_double_def)
  qed
qed

lemma round_units_exact:
  assumes "is_double k"
  shows "round_units k 1 = Fin k"
proof -
  from assms have dv: "2 ^ (bit_length \<bar>k\<bar> - 53) dvd \<bar>k\<bar>" and lt: "\<bar>k\<bar> < overflow_units"
    by (simp_all add: is_double_def)
  from round_mag_exact[OF _ dv] have "round_mag \<bar>k\<bar> 1 = \<bar>k\<bar>" by simp
  with lt show ?thesis by (simp add: round_units_def Let_def)
qed

lemma fl_add_double: "is_double_num (fl_add x y)"
  by (cases x; cases y) (simp_all add: round_units_double)

lemma fl_add_zero_right: "is_double_num x \<Longrightarrow> fl_add x (Fin 0) = x"
  by (cases x) (simp_all add: round_units_exact)

lemma fl_add_zero_left: "is_double_num x \<Longrightarrow> fl_add (Fin 0) x = x"
  by (cases x) (simp_all add: round_units_exact)

lemma int_units_double:
  assumes "\<bar>n\<bar> \<le> 2 ^ 53"
  shows "is_double (n * one_units)"
proof -
  have a: "\<bar>n * one_units\<bar> = \<bar>n\<bar> * 2 ^ unit_exp"
    by (simp only: one_units_def abs_mult abs_power2 abs_numeral abs_power_minus power_abs)
  have "2 ^ (bit_length (\<bar>n\<bar> * 2 ^ unit_exp) - 53) dvd \<bar>n\<bar> * 2 ^ unit_exp"
    using assms by (intro significand_dvd) simp_all
  then have "2 ^ (bit_length \<bar>n * one_units\<bar> - 53) dvd \<bar>n * one_units\<bar>"
    by (simp only: a)
  then have dv: "2 ^ (bit_length \<bar>n * one_units\<bar> - 53) dvd n * one_units"
    by (simp only: dvd_abs_iff)
  have "\<bar>n\<bar> * 2 ^ unit_exp \<le> 2 ^ 53 * (2::int) ^ unit_exp"
    using assms by (intro mult_right_mono) simp_all
  also have "\<dots> = (2::int) ^ (53 + unit_exp)" by (simp only: power_add)
  also have "\<dots> < (2::int) ^ 2098"
    by (intro power_strict_increasing) (simp_all add: unit_exp_def)
  finally have "\<bar>n * one_units\<bar> < overflow_units" by (simp only: a overflow_units_def)
  with dv show ?thesis by (simp only: is_double_def simp_thms)
qed

lemma fl_add_int_units:
  assumes "\<bar>a + b\<bar> \<le> 2 ^ 53"
  shows "fl_add (Fin (a * one_units)) (Fin (b * one_units)) = Fin ((a + b) * one_units)"
proof -
  have "a * one_units + b * one_units = (a + b) * one_units" by (simp add: algebra_simps)
  with round_units_exact[OF int_units_double[OF assms]] show ?thesis by simp
qed

lemma round_units_positive: "is_positive (round_units p 1) \<longleftrightarrow> 0 < p"
proof (cases "0 < p")
  case True
  with round_mag_pos[of "\<bar>p\<bar>"] have "0 < round_mag \<bar>p\<bar> 1" by simp
  with True show ?thesis by (simp add: round_units_def signed_inf_def Let_def)
next
  case False
  have "0 \<le> round_mag \<bar>p\<bar> 1" using round_mag_range(1)[of "\<bar>p\<bar>" 1] by simp
  moreover have "round_mag 0 1 = 0" by (simp add: round_mag_zero)
  ultimately show ?thesis using False
    by (cases "p = 0") (auto simp: round_units_def signed_inf_def overflow_units_def Let_def)
qed

lemma fl_sub_positive: "is_positive (fl_sub y x) \<longleftrightarrow> num_less x y"
  by (cases x; cases y) (simp_all add: fl_sub_def round_units_positive)

subsection \<open>Evaluating examples\<close>

lemma one_units_nonzero: "one_units \<noteq> 0"
  using one_units_pos by simp

lemma round_units_int:
  "\<bar>n\<bar> \<le> 2 ^ 53 \<Longrightarrow> round_units (n * one_units) 1 = Fin (n * one_units)"
  by (rule round_units_exact) (rule int_units_double)

lemma units_less: "a * one_units < b * one_units \<longleftrightarrow> a < b"
  using one_units_pos by simp

lemma units_eq: "a * one_units = b * one_units \<longleftrightarrow> a = b"
  using one_units_pos by simp

lemma units_eq_zero: "a * one_units = 0 \<longleftrightarrow> a = 0"
  using one_units_pos by simp

lemma fl_add_units:
  "\<bar>a + b\<bar> \<le> 2 ^ 53 \<Longrightarrow>
     fl_add (Fin (a * one_units)) (Fin (b * one_units)) = Fin ((a + b) * one_units)"
  by (rule fl_add_int_units)

lemma fl_add_zero_units:
  "\<bar>b\<bar> \<le> 2 ^ 53 \<Longrightarrow> fl_add (Fin 0) (Fin (b * one_units)) = Fin (b * one_units)"
  using fl_add_int_units[of 0 b] by simp

lemma round_ties_even_scale:
  assumes "0 < c"
  shows "round_ties_even (p * c) (d * c) = round_ties_even p d"
proof -
  have dv: "(p * c) div (d * c) = p div d" using assms by simp
  have md: "(p * c) mod (d * c) = (p mod d) * c" using assms by (simp add: mult_mod_left)
  have a: "2 * (p mod d * c) < d * c \<longleftrightarrow> 2 * (p mod d) < d"
    using assms mult_less_cancel_right_pos[of c "2 * (p mod d)" d] by (simp add: mult.assoc)
  have b: "d * c < 2 * (p mod d * c) \<longleftrightarrow> d < 2 * (p mod d)"
    using assms mult_less_cancel_right_pos[of c d "2 * (p mod d)"] by (simp add: mult.assoc)
  show ?thesis
    unfolding round_ties_even_def dv md Let_def a b ..
qed

lemma round_units_scale:
  assumes "0 < c"
  shows "round_units (p * c) (q * c) = round_units p q"
proof -
  have ab: "\<bar>p * c\<bar> = \<bar>p\<bar> * c" using assms by (simp add: abs_mult)
  have sh: "round_shift (\<bar>p\<bar> * c) (q * c) = round_shift \<bar>p\<bar> q"
    using assms by (simp add: round_shift_def)
  have "round_ties_even (\<bar>p\<bar> * c) (q * c * 2 ^ round_shift \<bar>p\<bar> q) =
      round_ties_even \<bar>p\<bar> (q * 2 ^ round_shift \<bar>p\<bar> q)"
    using round_ties_even_scale[OF assms, of "\<bar>p\<bar>" "q * 2 ^ round_shift \<bar>p\<bar> q"]
    by (simp add: mult.assoc mult.left_commute mult.commute)
  then have mg: "round_mag (\<bar>p\<bar> * c) (q * c) = round_mag \<bar>p\<bar> q"
    by (simp add: round_mag_def sh)
  have sg: "(p * c < 0) = (p < 0)" using assms by (simp add: mult_less_0_iff)
  show ?thesis unfolding round_units_def ab mg sg ..
qed

lemma fl_div_units:
  assumes "0 < b"
  shows "fl_div (Fin (a * one_units)) (Fin (b * one_units)) = round_units (a * one_units) b"
proof -
  have pos: "0 < b * one_units" using assms one_units_pos by simp
  have "b * one_units \<noteq> 0" using pos by linarith
  moreover have "sgn (b * one_units) = 1" using pos by (rule sgn_pos)
  moreover have "\<bar>b * one_units\<bar> = b * one_units" using pos by (rule abs_of_pos)
  ultimately have "fl_div (Fin (a * one_units)) (Fin (b * one_units)) =
      round_units (a * one_units * one_units) (b * one_units)"
    by (simp only: fl_div.simps if_False mult_1_right)
  also have "\<dots> = round_units (a * one_units) b"
    using one_units_pos by (rule round_units_scale)
  finally show ?thesis .
qed

lemma fl_div_exact:
  assumes "0 < b" "\<bar>n\<bar> \<le> 2 ^ 53"
  shows "fl_div (Fin (n * b * one_units)) (Fin (b * one_units)) = Fin (n * one_units)"
proof -
  have e: "n * b * one_units = (n * one_units) * b" by (simp add: algebra_simps)
  have "fl_div (Fin (n * b * one_units)) (Fin (b * one_units)) =
      round_units (n * b * one_units) b"
    using assms(1) by (rule fl_div_units)
  also have "\<dots> = round_units (n * one_units) 1"
    unfolding e using round_units_scale[OF assms(1), of "n * one_units" 1] by simp
  also have "\<dots> = Fin (n * one_units)" using assms(2) by (rule round_units_int)
  finally show ?thesis .
qed

lemma toFixed2_units:
  assumes "0 \<le> n" "n < 10 ^ 21"
  shows "toFixed2 (Fin (n * one_units)) = Fixed2 False (100 * n)"
proof -
  have "(200 * (n * one_units) + one_units) div (2 * one_units) =
      ((200 * n + 1) * one_units) div (2 * one_units)"
    by (simp add: algebra_simps)
  also have "\<dots> = (200 * n + 1) div 2"
    using one_units_pos by simp
  also have "\<dots> = 100 * n" by simp
  finally have d: "(200 * (n * one_units) + one_units) div (2 * one_units) = 100 * n" .
  have a: "\<bar>n * one_units\<bar> = n * one_units" using assms(1) one_units_pos by simp
  have lt: "n * one_units < 10 ^ 21 * one_units"
    using assms(2) one_units_pos by (simp only: units_less)
  have nn: "\<not> n * one_units < 0" using assms(1) one_units_pos by (simp add: mult_less_0_iff)
  show ?thesis
    using lt nn by (simp only: toFixed2.simps a d not_le[symmetric] if_False simp_thms)
qed

lemma round_units_one: "round_units one_units 1 = Fin one_units"
  using round_units_int[of 1] by simp

lemma bit_length_eq:
  assumes "2 ^ k \<le> n" "n < 2 ^ Suc k"
  shows "bit_length n = Suc k"
proof -
  from bit_length_gt[OF assms(1)] have "k < bit_length n" .
  moreover from bit_length_le[OF assms(2)] have "bit_length n \<le> Suc k" .
  ultimately show ?thesis by simp
qed

text \<open>Rounding an integer between \<open>2^53\<close> and \<open>2^54\<close>: the last bit is rounded away.\<close>

lemma round_units_int54:
  assumes "2 ^ 53 \<le> n" "n < 2 ^ 54"
  shows "round_units (n * one_units) 1 = Fin (round_ties_even n 2 * 2 * one_units)"
proof -
  have n0: "0 \<le> n" using assms(1) by (smt (verit) zero_le_power)
  have a: "\<bar>n * one_units\<bar> = n * 2 ^ unit_exp"
    using n0 by (simp add: one_units_def abs_mult)
  have lo: "2 ^ (53 + unit_exp) \<le> n * 2 ^ unit_exp"
    using assms(1) by (simp add: power_add mult_right_mono del: power_Suc)
  have "n * 2 ^ unit_exp < 2 ^ 54 * (2::int) ^ unit_exp"
    using assms(2) by (intro mult_strict_right_mono) simp_all
  then have hi: "n * 2 ^ unit_exp < 2 ^ Suc (53 + unit_exp)"
    by (simp add: power_add)
  have bl: "bit_length (n * 2 ^ unit_exp) = Suc (53 + unit_exp)"
    using lo hi by (rule bit_length_eq)
  have sh: "round_shift (n * 2 ^ unit_exp) 1 = Suc unit_exp"
    by (simp add: round_shift_def bl)
  have "round_ties_even (n * 2 ^ unit_exp) (2 * 2 ^ unit_exp) = round_ties_even n 2"
    by (rule round_ties_even_scale) simp
  then have mg: "round_mag (n * 2 ^ unit_exp) 1 = round_ties_even n 2 * 2 * 2 ^ unit_exp"
    by (simp add: round_mag_def sh)
  have "round_ties_even n 2 \<le> 2 ^ 53"
    using assms(2) by (intro round_ties_even_upper) simp_all
  then have "round_ties_even n 2 * 2 * 2 ^ unit_exp \<le> 2 ^ 53 * 2 * (2::int) ^ unit_exp"
    by (intro mult_right_mono) simp_all
  also have "\<dots> = (2::int) ^ (54 + unit_exp)" by (simp add: power_add)
  also have "\<dots> < (2::int) ^ 2098"
    by (intro power_strict_increasing) (simp_all add: unit_exp_def)
  finally have ov: "\<not> overflow_units \<le> round_ties_even n 2 * 2 * 2 ^ unit_exp"
    by (simp add: overflow_units_def)
  have neg: "\<not> n * one_units < 0"
    using n0 one_units_pos by (simp add: mult_less_0_iff)
  show ?thesis
    unfolding round_units_def a mg Let_def using ov neg
    by (simp add: one_units_def)
qed

lemmas parse_simps =
  parse_string_def parse_unsigned_def parse_exponent_def is_white_def is_digit_def
  digits_val_def Let_def round_units_int or_zero_def units_eq_zero one_units_nonzero

lemmas table_simps =
  group_orders_def add_order_def upsert_def object_prototype_names_def property_key_def
  object_values_def is_array_index_def name_or_unknown_def js_sort_def

lemma round_units_eval:
  assumes q: "0 < q" and a: "0 \<le> a" and kj: "k \<le> j"
    and lo: "2 ^ 52 * (q * 2 ^ t) \<le> a * 2 ^ k"
    and hi: "a * 2 ^ k < 2 ^ 53 * (q * 2 ^ t)"
    and ov: "53 + t + j - k < 2098"
  shows "round_units (a * 2 ^ j) q =
           Fin (round_ties_even (a * 2 ^ k) (q * 2 ^ t) * 2 ^ (t + j - k))"
proof -
  define d where "d = j - k"
  define g where "g = t + d"
  have j: "j = k + d" using kj by (simp add: d_def)
  have g': "t + j - k = g" using kj by (simp add: g_def d_def)
  have aj: "a * 2 ^ j = a * 2 ^ k * 2 ^ d" by (simp add: j power_add)
  have qg: "q * 2 ^ g = q * 2 ^ t * 2 ^ d" by (simp add: g_def power_add)
  have "2 ^ 52 * (q * 2 ^ t) * 2 ^ d \<le> a * 2 ^ k * 2 ^ d"
    using lo by (intro mult_right_mono) simp_all
  then have lo': "2 ^ (52 + g) * q \<le> a * 2 ^ j"
    by (simp add: aj g_def power_add algebra_simps)
  have "a * 2 ^ k * 2 ^ d < 2 ^ 53 * (q * 2 ^ t) * 2 ^ d"
    using hi by (intro mult_strict_right_mono) simp_all
  then have hi': "a * 2 ^ j < 2 ^ Suc (52 + g) * q"
    by (simp add: aj g_def power_add algebra_simps)
  have bl: "bit_length (a * 2 ^ j div q) = Suc (52 + g)"
    using int_le_div[OF q lo'] int_div_less[OF q hi'] by (rule bit_length_eq)
  have sh: "round_shift (a * 2 ^ j) q = g" by (simp add: round_shift_def bl)
  have "round_ties_even (a * 2 ^ j) (q * 2 ^ g) =
      round_ties_even (a * 2 ^ k * 2 ^ d) (q * 2 ^ t * 2 ^ d)"
    by (simp only: aj qg)
  also have "\<dots> = round_ties_even (a * 2 ^ k) (q * 2 ^ t)"
    by (rule round_ties_even_scale) simp
  finally have mg: "round_mag (a * 2 ^ j) q = round_ties_even (a * 2 ^ k) (q * 2 ^ t) * 2 ^ g"
    by (simp only: round_mag_def sh)
  have "round_ties_even (a * 2 ^ k) (q * 2 ^ t) \<le> 2 ^ 53"
    using q hi by (intro round_ties_even_upper) simp_all
  then have "round_ties_even (a * 2 ^ k) (q * 2 ^ t) * 2 ^ g \<le> 2 ^ 53 * (2::int) ^ g"
    by (intro mult_right_mono) simp_all
  also have "\<dots> = (2::int) ^ (53 + g)" by (simp add: power_add)
  also have "\<dots> < (2::int) ^ 2098"
  proof (intro power_strict_increasing)
    show "53 + g < 2098" using ov kj by (simp add: g_def d_def)
  qed simp
  finally have nov: "\<not> overflow_units \<le> round_ties_even (a * 2 ^ k) (q * 2 ^ t) * 2 ^ g"
    by (simp add: overflow_units_def)
  have ab: "\<bar>a * 2 ^ j\<bar> = a * 2 ^ j" using a by simp
  have neg: "\<not> a * 2 ^ j < 0" using a by (simp add: mult_less_0_iff)
  show ?thesis
    unfolding round_units_def ab mg Let_def g' using nov neg by simp
qed

lemma stage_rate_zero:
  assumes "0 < n"
  shows "stage_rate 0 n = Str (Fixed2 False 0)"
proof -
  have "0 < int n * one_units" using assms one_units_pos by simp
  then have "int n * one_units \<noteq> 0" by linarith
  then have d: "fl_div (js_of_nat 0) (js_of_nat n) = Fin 0"
    using assms one_units_pos
    by (simp add: js_of_nat_def round_units_def round_mag_zero overflow_units_def)
  have m: "fl_mul (Fin 0) (js_of_nat 100) = Fin 0"
    using one_units_pos
    by (simp add: js_of_nat_def round_units_def round_mag_zero overflow_units_def)
  show ?thesis using assms by (simp add: stage_rate_def d m toFixed2_zero del: toFixed2.simps)
qed


lemma round_ties_even_nonneg: "0 < d \<Longrightarrow> 0 \<le> p \<Longrightarrow> 0 \<le> round_ties_even p d"
  by (rule round_ties_even_lower) simp_all

lemma toFixed2_eval:
  assumes B: "0 \<le> B" "B \<le> 2 ^ 53" and g: "g + e = unit_exp"
  shows "toFixed2 (Fin (B * 2 ^ g)) = Fixed2 False ((200 * B + 2 ^ e) div (2 * 2 ^ e))"
proof -
  have U: "one_units = 2 ^ e * 2 ^ g"
    by (simp add: one_units_def g[symmetric] power_add)
  have ab: "\<bar>B * 2 ^ g\<bar> = B * 2 ^ g" using B(1) by simp
  have "B * 2 ^ g \<le> 2 ^ 53 * (2::int) ^ g" using B(2) by (intro mult_right_mono) simp_all
  also have "\<dots> < 10 ^ 21 * (2::int) ^ g" by (intro mult_strict_right_mono) simp_all
  also have "\<dots> \<le> 10 ^ 21 * (2 ^ e * (2::int) ^ g)"
    by (intro mult_left_mono) simp_all
  finally have small: "\<not> 10 ^ 21 * one_units \<le> \<bar>B * 2 ^ g\<bar>" unfolding U ab by simp
  have nn: "\<not> B * 2 ^ g < 0" using B(1) by (simp add: mult_less_0_iff)
  have "200 * \<bar>B * 2 ^ g\<bar> + one_units = (200 * B + 2 ^ e) * 2 ^ g"
    unfolding ab U by (simp add: algebra_simps)
  moreover have "2 * one_units = (2 * 2 ^ e) * 2 ^ g" unfolding U by simp
  ultimately have "(200 * \<bar>B * 2 ^ g\<bar> + one_units) div (2 * one_units) =
      ((200 * B + 2 ^ e) * 2 ^ g) div ((2 * 2 ^ e) * 2 ^ g)"
    by (simp only:)
  also have "\<dots> = (200 * B + 2 ^ e) div (2 * 2 ^ e)"
    by (rule div_mult_mult2) simp
  finally show ?thesis using small nn by (simp only: toFixed2.simps if_False)
qed

lemma stage_rate_eval:
  fixes c n k t :: nat
  assumes n: "0 < n"
    and lo1: "2 ^ 52 * int n \<le> int c * 2 ^ k"
    and hi1: "int c * 2 ^ k < 2 ^ 53 * int n"
    and k: "k \<le> unit_exp"
    and M: "M = round_ties_even (int c * 2 ^ k) (int n)"
    and lo2: "2 ^ 52 * 2 ^ t \<le> 100 * M"
    and hi2: "100 * M < 2 ^ 53 * 2 ^ t"
    and t: "t \<le> k"
    and B: "B = round_ties_even (100 * M) (2 ^ t)"
  shows "stage_rate c n = Str (Fixed2 False ((200 * B + 2 ^ (k - t)) div (2 * 2 ^ (k - t))))"
proof -
  have n': "0 < int n" using n by simp
  have M0: "0 \<le> M" unfolding M using n' by (intro round_ties_even_nonneg) simp_all
  have "fl_div (js_of_nat c) (js_of_nat n) = round_units (int c * 2 ^ unit_exp) (int n)"
    unfolding js_of_nat_def using fl_div_units[OF n', of "int c"] by (simp only: one_units_def)
  also have "\<dots> = Fin (round_ties_even (int c * 2 ^ k) (int n * 2 ^ 0) * 2 ^ (0 + unit_exp - k))"
    using n' k lo1 hi1 by (intro round_units_eval) (simp_all add: unit_exp_def)
  finally have d: "fl_div (js_of_nat c) (js_of_nat n) = Fin (M * 2 ^ (unit_exp - k))"
    by (simp add: M)
  have "fl_mul (Fin (M * 2 ^ (unit_exp - k))) (js_of_nat 100) =
      round_units (100 * M * 2 ^ (unit_exp - k) * one_units) (1 * one_units)"
    by (simp add: js_of_nat_def algebra_simps)
  also have "\<dots> = round_units (100 * M * 2 ^ (unit_exp - k)) 1"
    using one_units_pos by (rule round_units_scale)
  also have "\<dots> = Fin (round_ties_even (100 * M * 2 ^ 0) (1 * 2 ^ t) *
      2 ^ (t + (unit_exp - k) - 0))"
    using M0 lo2 hi2 t k by (intro round_units_eval) (simp_all add: unit_exp_def)
  finally have m: "fl_mul (Fin (M * 2 ^ (unit_exp - k))) (js_of_nat 100) =
      Fin (B * 2 ^ (t + (unit_exp - k)))"
    by (simp add: B)
  have B0: "0 \<le> B" unfolding B using M0 by (intro round_ties_even_nonneg) simp_all
  have B1: "B \<le> 2 ^ 53" unfolding B using hi2 by (intro round_ties_even_upper) simp_all
  have "t + (unit_exp - k) + (k - t) = unit_exp" using t k by simp
  from toFixed2_eval[OF B0 B1 this] show ?thesis
    using n by (simp only: stage_rate_def d m if_True)
qed

lemma rate_1_of_3: "stage_rate 1 3 = Str (Fixed2 False 3333)"
  by (rule stage_rate_eval[where k = 54 and t = 7 and M = 6004799503160661 and B = 4691249611844266, THEN trans])
    (simp_all add: unit_exp_def round_ties_even_def Let_def)

lemma rate_1_of_7: "stage_rate 1 7 = Str (Fixed2 False 1429)"
  by (rule stage_rate_eval[where k = 55 and t = 6 and M = 5146971002709138 and B = 8042142191733028, THEN trans])
    (simp_all add: unit_exp_def round_ties_even_def Let_def)

lemma rate_3_of_7: "stage_rate 3 7 = Str (Fixed2 False 4286)"
  by (rule stage_rate_eval[where k = 54 and t = 7 and M = 7720456504063707 and B = 6031606643799771, THEN trans])
    (simp_all add: unit_exp_def round_ties_even_def Let_def)

subsection \<open>Tables and sorting\<close>

lemma update_entry_keys: "map fst (update_entry k f tbl) = map fst tbl"
  by (induction tbl) auto

lemma map_of_update_entry:
  "map_of (update_entry k f tbl) k' =
     (if k' = k then map_option f (map_of tbl k) else map_of tbl k')"
  by (induction tbl) auto

lemma upsert_keys:
  "map fst (upsert k init step tbl) =
     (if k \<in> set object_prototype_names \<or> map_of tbl k \<noteq> None then map fst tbl
      else map fst tbl @ [k])"
  by (simp add: upsert_def update_entry_keys)

lemma upsert_distinct:
  "distinct (map fst tbl) \<Longrightarrow> distinct (map fst (upsert k init step tbl))"
  by (auto simp: upsert_keys map_of_eq_None_iff)

lemma map_of_upsert:
  "map_of (upsert k init step tbl) k' =
     (if k \<in> set object_prototype_names then map_of tbl k'
      else if k' = k then Some (step (case map_of tbl k of None \<Rightarrow> init | Some v \<Rightarrow> v))
      else map_of tbl k')"
  by (auto simp: upsert_def map_of_update_entry map_add_def split: option.splits)

text \<open>A table built by a loop of upserts.\<close>

lemma fold_upsert_distinct:
  "distinct (map fst (foldl (\<lambda>tbl x. upsert (kf x) (init x) (step x) tbl) [] os))"
  by (induction os rule: rev_induct) (simp_all add: upsert_distinct)

lemma fold_upsert_lookup:
  "map_of (foldl (\<lambda>tbl x. upsert (kf x) (init x) (step x) tbl) [] os) k =
     (if k \<notin> set object_prototype_names \<and> filter (\<lambda>x. kf x = k) os \<noteq> []
      then Some (foldl (\<lambda>v x. step x v) (init (hd (filter (\<lambda>x. kf x = k) os)))
                   (filter (\<lambda>x. kf x = k) os))
      else None)"
proof (induction os rule: rev_induct)
  case Nil
  show ?case by simp
next
  case (snoc x xs)
  show ?case
  proof (cases "kf x = k")
    case True
    then show ?thesis
      using snoc by (auto simp: map_of_upsert)
  next
    case False
    then show ?thesis
      using snoc by (auto simp: map_of_upsert)
  qed
qed

lemma object_values_set: "set (object_values obj) = snd ` set obj"
  by (auto simp: object_values_def)

lemma object_values_length: "length (object_values obj) = length obj"
proof -
  have "length (filter (\<lambda>e. is_array_index (fst e)) obj) +
        length (filter (\<lambda>e. \<not> is_array_index (fst e)) obj) = length obj"
    by (rule sum_length_filter_compl)
  then show ?thesis by (simp add: object_values_def)
qed

lemma insert_by_set: "set (insert_by cmp x ys) = insert x (set ys)"
  by (induction ys) auto

lemma insert_by_length: "length (insert_by cmp x ys) = Suc (length ys)"
  by (induction ys) auto

lemma js_sort_set: "set (js_sort cmp xs) = set xs"
  by (induction xs) (simp_all add: js_sort_def insert_by_set)

lemma js_sort_length: "length (js_sort cmp xs) = length xs"
  by (induction xs) (simp_all add: js_sort_def insert_by_length)

lemma insert_by_distinct: "distinct (x # ys) \<Longrightarrow> distinct (insert_by cmp x ys)"
  by (induction ys) (auto simp: insert_by_set)

lemma js_sort_distinct: "distinct xs \<Longrightarrow> distinct (js_sort cmp xs)"
proof (induction xs)
  case Nil
  show ?case by (simp add: js_sort_def)
next
  case (Cons x xs)
  then have "distinct (x # js_sort cmp xs)" by (simp add: js_sort_set)
  then have "distinct (insert_by cmp x (js_sort cmp xs))" by (rule insert_by_distinct)
  then show ?case by (simp add: js_sort_def)
qed

lemma not_less_trans:
  "b \<noteq> NaN \<Longrightarrow> \<not> num_less a b \<Longrightarrow> \<not> num_less b c \<Longrightarrow> \<not> num_less a c"
  by (cases a; cases b; cases c) auto

lemma num_less_asym: "num_less a b \<Longrightarrow> \<not> num_less b a"
  by (cases a; cases b) auto

lemma insert_by_sorted:
  assumes pos: "\<And>a b. is_positive (cmp a b) \<longleftrightarrow> num_less (key a) (key b)"
    and nn: "\<forall>z \<in> set ys. key z \<noteq> NaN"
    and srt: "sorted_wrt (\<lambda>a b. \<not> num_less (key a) (key b)) ys"
  shows "sorted_wrt (\<lambda>a b. \<not> num_less (key a) (key b)) (insert_by cmp x ys)"
  using nn srt
proof (induction ys)
  case Nil
  show ?case by simp
next
  case (Cons y ys)
  show ?case
  proof (cases "is_positive (cmp x y)")
    case True
    then have "num_less (key x) (key y)" by (simp add: pos)
    then have "\<not> num_less (key y) (key x)" by (rule num_less_asym)
    with Cons True show ?thesis by (auto simp: insert_by_set)
  next
    case False
    then have xy: "\<not> num_less (key x) (key y)" by (simp add: pos)
    have "\<not> num_less (key x) (key z)" if "z \<in> set ys" for z
    proof -
      from Cons.prems that have "\<not> num_less (key y) (key z)" by auto
      moreover from Cons.prems have "key y \<noteq> NaN" by simp
      ultimately show ?thesis using xy not_less_trans by blast
    qed
    with Cons.prems xy False show ?thesis by auto
  qed
qed

lemma js_sort_sorted:
  assumes pos: "\<And>a b. is_positive (cmp a b) \<longleftrightarrow> num_less (key a) (key b)"
    and nn: "\<forall>z \<in> set xs. key z \<noteq> NaN"
  shows "sorted_wrt (\<lambda>a b. \<not> num_less (key a) (key b)) (js_sort cmp xs)"
  using nn
proof (induction xs)
  case Nil
  show ?case by (simp add: js_sort_def)
next
  case (Cons x xs)
  then have "sorted_wrt (\<lambda>a b. \<not> num_less (key a) (key b)) (js_sort cmp xs)" by simp
  moreover from Cons.prems have "\<forall>z \<in> set (js_sort cmp xs). key z \<noteq> NaN"
    by (simp add: js_sort_set)
  ultimately have "sorted_wrt (\<lambda>a b. \<not> num_less (key a) (key b))
      (insert_by cmp x (js_sort cmp xs))"
    using pos by (intro insert_by_sorted) auto
  then show ?case by (simp add: js_sort_def)
qed

subsection \<open>The overview\<close>

lemma parse_string_null: "parse_string ''null'' = NaN"
  by (simp add: parse_string_def parse_unsigned_def is_white_def is_digit_def Let_def)

lemma parse_string_abc: "parse_string ''abc'' = NaN"
  by (simp add: parse_string_def parse_unsigned_def is_white_def is_digit_def Let_def)

lemma revenue_sum_double: "is_double_num (revenue_sum os)"
proof (induction os rule: rev_induct)
  case Nil
  show ?case by (simp add: revenue_sum_def is_double_zero)
next
  case (snoc x xs)
  show ?case by (simp add: revenue_sum_def fl_add_double)
qed

lemma revenue_sum_append:
  "revenue_sum (xs @ ys) =
     foldl (\<lambda>acc x. fl_add acc (or_zero (parseFloat (order_total x)))) (revenue_sum xs) ys"
  by (simp add: revenue_sum_def)

text \<open>
  C5. An order whose \<open>total\<close> is \<open>null\<close> or the string \<open>abc\<close> counts as 0: wherever it
  stands in the list, the revenue sum is the sum without it, so the \<open>revenue\<close> field is
  that of the other orders, and \<open>average_value\<close> is the sum of the other orders divided by
  the number of all orders. The overview is a total function: nothing is thrown.
\<close>

theorem unparsable_total_contributes_zero:
  assumes "order_total x = JNull \<or> order_total x = JStr ''abc''"
  shows "revenue_sum (xs @ x # ys) = revenue_sum (xs @ ys) \<and>
         revenue (orders (overview (xs @ x # ys) us cs)) =
           revenue (orders (overview (xs @ ys) us cs)) \<and>
         average_value (orders (overview (xs @ x # ys) us cs)) =
           Str (toFixed2 (fl_div (revenue_sum (xs @ ys))
                            (js_of_nat (length xs + length ys + 1))))"
proof -
  from assms have "or_zero (parseFloat (order_total x)) = Fin 0"
    by (auto simp: parse_string_null parse_string_abc or_zero_def)
  then have "fl_add (revenue_sum xs) (or_zero (parseFloat (order_total x))) = revenue_sum xs"
    by (simp add: fl_add_zero_right revenue_sum_double)
  then have "revenue_sum (xs @ x # ys) = revenue_sum (xs @ ys)"
    by (simp add: revenue_sum_append)
  then show ?thesis by (simp add: overview_def)
qed

theorem unparsable_total_contributes_zero_witness:
  "order_total (null_order\<lparr>order_total := JStr ''abc''\<rparr>) = JStr ''abc'' \<and>
   revenue_sum ([null_order\<lparr>order_total := JStr ''5''\<rparr>] @
                null_order\<lparr>order_total := JStr ''abc''\<rparr> # []) =
     revenue_sum ([null_order\<lparr>order_total := JStr ''5''\<rparr>] @ []) \<and>
   order_total null_order = JNull \<and>
   revenue_sum ([] @ null_order # [null_order\<lparr>order_total := JStr ''5''\<rparr>]) =
     revenue_sum ([] @ [null_order\<lparr>order_total := JStr ''5''\<rparr>])"
  using unparsable_total_contributes_zero
      [of "null_order\<lparr>order_total := JStr ''abc''\<rparr>"
          "[null_order\<lparr>order_total := JStr ''5''\<rparr>]" "[]" "[]" "[]"]
    unparsable_total_contributes_zero
      [of "null_order" "[]" "[null_order\<lparr>order_total := JStr ''5''\<rparr>]" "[]" "[]"]
  by (simp add: null_order_def)

text \<open>
  C10. In the users section of the overview, \<open>total_users\<close> always equals \<open>new_users\<close>:
  both are the number of user records supplied, which are those created in the window.
\<close>

theorem overview_total_users_is_new_users:
  "total_users (users (overview os us cs)) = new_users (users (overview os us cs)) \<and>
   new_users (users (overview os us cs)) = length us"
  by (simp add: overview_def)

lemma round_big: "round_units (10000000000000000 * one_units) 1 = Fin (10000000000000000 * one_units)"
  using round_units_int54[of 10000000000000000] by (simp add: round_ties_even_def Let_def)

lemma amount_big: "or_zero (parseFloat (order_total big_order)) = Fin (10000000000000000 * one_units)"
  by (simp add: big_order_def null_order_def parse_simps round_big)

lemma amount_unit: "or_zero (parseFloat (order_total unit_order)) = Fin (1 * one_units)"
  by (simp add: unit_order_def null_order_def parse_simps del: mult_1)

lemma sum_big_first:
  "revenue_sum [big_order, unit_order, unit_order] = Fin (10000000000000000 * one_units)"
proof -
  have r: "round_units (10000000000000001 * one_units) 1 = Fin (10000000000000000 * one_units)"
    using round_units_int54[of 10000000000000001] by (simp add: round_ties_even_def Let_def)
  have "10000000000000000 * one_units + 1 * one_units = 10000000000000001 * one_units"
    by simp
  then have s: "fl_add (Fin (10000000000000000 * one_units)) (Fin (1 * one_units)) =
      Fin (10000000000000000 * one_units)"
    using r by (simp only: fl_add.simps)
  have z: "fl_add (Fin 0) (Fin (10000000000000000 * one_units)) =
      Fin (10000000000000000 * one_units)"
    using round_big by simp
  show ?thesis
    by (simp only: revenue_sum_def foldl.simps amount_big amount_unit z s)
qed

lemma sum_big_last:
  "revenue_sum [unit_order, unit_order, big_order] = Fin (10000000000000002 * one_units)"
proof -
  have r: "round_units (10000000000000002 * one_units) 1 = Fin (10000000000000002 * one_units)"
    using round_units_int54[of 10000000000000002] by (simp add: round_ties_even_def Let_def)
  have "2 * one_units + 10000000000000000 * one_units = 10000000000000002 * one_units"
    by simp
  then have s: "fl_add (Fin (2 * one_units)) (Fin (10000000000000000 * one_units)) =
      Fin (10000000000000002 * one_units)"
    using r by (simp only: fl_add.simps)
  have z: "fl_add (Fin 0) (Fin (1 * one_units)) = Fin (1 * one_units)"
    by (rule fl_add_zero_units) simp
  have t: "fl_add (Fin (1 * one_units)) (Fin (1 * one_units)) = Fin (2 * one_units)"
    using fl_add_units[of 1 1] by (simp del: fl_add.simps mult_1)
  show ?thesis
    by (simp only: revenue_sum_def foldl.simps amount_big amount_unit z t s)
qed

text \<open>
  C2, as stated, fails. Additions of doubles round, so the sum depends on the order of
  the summands: with totals \<open>10000000000000000\<close>, \<open>1\<close>, \<open>1\<close> each added 1 is lost to
  rounding and the revenue is \<open>10000000000000000.00\<close>, while the same orders listed as
  \<open>1\<close>, \<open>1\<close>, \<open>10000000000000000\<close> give \<open>10000000000000002.00\<close>.
\<close>

theorem revenue_depends_on_order:
  "mset [unit_order, unit_order, big_order] = mset [big_order, unit_order, unit_order] \<and>
   revenue (orders (overview [big_order, unit_order, unit_order] [] [])) =
     Fixed2 False 1000000000000000000 \<and>
   revenue (orders (overview [unit_order, unit_order, big_order] [] [])) =
     Fixed2 False 1000000000000000200 \<and>
   revenue (orders (overview [unit_order, unit_order, big_order] [] [])) \<noteq>
     revenue (orders (overview [big_order, unit_order, unit_order] [] []))"
  using toFixed2_units[of 10000000000000000] toFixed2_units[of 10000000000000002]
  by (simp add: overview_def sum_big_first sum_big_last del: toFixed2.simps)

text \<open>
  The error of rounding a non-negative value that is zero, or not below the normal range,
  or an integer of units: at most \<open>2^-53\<close> of the value.
\<close>

lemma units_ge_headroom: "2 ^ 53 * 100 \<le> one_units"
proof -
  have "(2 ^ 53 * 100 :: int) \<le> 2 ^ 60" by simp
  also have "\<dots> \<le> 2 ^ unit_exp" by (rule power_increasing) (simp_all add: unit_exp_def)
  finally show ?thesis by (simp only: one_units_def)
qed

lemma units_below_overflow: "2 ^ 53 * one_units < 2 ^ 2000"
proof -
  have "2 ^ 53 * one_units = (2::int) ^ (53 + unit_exp)" by (simp only: one_units_def power_add)
  also have "\<dots> < 2 ^ 2000" by (rule power_strict_increasing) (simp_all add: unit_exp_def)
  finally show ?thesis .
qed

lemma round_units_nonneg_error:
  assumes a: "0 \<le> a" and q: "0 < q" and big: "a < 2 ^ 2000 * q"
    and ex: "q = 1 \<or> a = 0 \<or> 2 ^ 53 * q \<le> a"
  shows "\<exists>m. round_units a q = Fin m \<and> 0 \<le> m \<and> \<bar>m * q - a\<bar> * 2 ^ 53 \<le> a"
proof -
  define m where "m = round_mag a q"
  have m0: "0 \<le> m" unfolding m_def by (rule round_mag_range(1)[OF a q])
  have err: "\<bar>m * q - a\<bar> * 2 ^ 53 \<le> a"
  proof (cases "0 < round_shift a q")
    case True
    then show ?thesis unfolding m_def by (rule round_mag_relative_error[OF q])
  next
    case False
    then have s0: "round_shift a q = 0" by simp
    from round_shift_zero[OF a q s0] have lt: "a < 2 ^ 53 * q" .
    from ex lt consider "q = 1" | "a = 0" by linarith
    then show ?thesis
    proof cases
      case 1
      with s0 have "round_shift a 1 = 0" by simp
      with 1 have "m = a" by (simp add: m_def round_mag_def round_ties_even_def)
      with 1 a show ?thesis by simp
    next
      case 2
      then have "m = 0" using q by (simp add: m_def round_mag_zero)
      with 2 show ?thesis by simp
    qed
  qed
  have "\<bar>m * q - a\<bar> \<le> \<bar>m * q - a\<bar> * 2 ^ 53" by simp
  with err have "m * q \<le> 2 * a" by linarith
  also have "\<dots> < 2 * (2 ^ 2000 * q)" using big by simp
  finally have "m * q < (2 ^ 2001) * q" by simp
  then have "m < 2 ^ 2001" using q by (simp only: mult_less_cancel_right_pos)
  also have "(2 ^ 2001 :: int) \<le> 2 ^ 2098" by (rule power_increasing) simp_all
  finally have nov: "\<not> overflow_units \<le> m" by (simp add: overflow_units_def)
  have "round_units a q = Fin m"
    using a nov by (simp add: round_units_def m_def[symmetric] Let_def)
  with m0 err show ?thesis by blast
qed


lemma cents_amount:
  assumes c0: "0 \<le> c" and cb: "c < 2 ^ 52"
  shows "\<exists>k. round_units (c * one_units) 100 = Fin k \<and> 0 \<le> k \<and>
           \<bar>100 * k - c * one_units\<bar> * 2 ^ 53 \<le> c * one_units"
proof -
  have a: "0 \<le> c * one_units" using c0 one_units_pos by simp
  have "c * one_units \<le> 2 ^ 53 * one_units"
    using cb one_units_pos by (intro mult_right_mono) simp_all
  also note units_below_overflow
  also have "(2 ^ 2000 :: int) \<le> 2 ^ 2000 * 100" by simp
  finally have big: "c * one_units < 2 ^ 2000 * 100" .
  have ex: "(100::int) = 1 \<or> c * one_units = 0 \<or> 2 ^ 53 * 100 \<le> c * one_units"
  proof (cases "c = 0")
    case True
    then show ?thesis by simp
  next
    case False
    with c0 have "1 \<le> c" by simp
    then have "1 * one_units \<le> c * one_units"
      using one_units_pos by (intro mult_right_mono) simp_all
    then have "one_units \<le> c * one_units" by simp
    with units_ge_headroom have "2 ^ 53 * 100 \<le> c * one_units" by (rule order_trans)
    then show ?thesis by blast
  qed
  from round_units_nonneg_error[OF a _ big ex]
  obtain m where "round_units (c * one_units) 100 = Fin m" "0 \<le> m"
      "\<bar>m * 100 - c * one_units\<bar> * 2 ^ 53 \<le> c * one_units"
    by auto
  then show ?thesis by (auto simp: mult.commute)
qed

lemma add_nonneg_error:
  assumes "0 \<le> a" "a < 2 ^ 2000"
  shows "\<exists>m. round_units a 1 = Fin m \<and> 0 \<le> m \<and> \<bar>m - a\<bar> * 2 ^ 53 \<le> a"
  using round_units_nonneg_error[of a 1] assms by simp

lemma cents_bounds:
  fixes s T N :: int
  assumes Nb: "N * T \<le> 2 ^ 53 * T" and E: "\<bar>100 * s - T\<bar> * 2 ^ 53 \<le> N * T"
  shows "\<bar>100 * s - T\<bar> \<le> T"
proof -
  from E Nb have "\<bar>100 * s - T\<bar> * 2 ^ 53 \<le> T * 2 ^ 53" by (simp add: mult.commute)
  then show ?thesis by simp
qed

lemma cents_step:
  fixes s k s2 T t N :: int
  assumes T0: "0 \<le> T" and t0: "0 \<le> t" and N1: "1 \<le> N" and Nb: "N * T \<le> 2 ^ 53 * T"
    and E: "\<bar>100 * s - T\<bar> * 2 ^ 53 \<le> N * T"
    and P: "\<bar>100 * k - t\<bar> * 2 ^ 53 \<le> t"
    and R: "\<bar>s2 - (s + k)\<bar> * 2 ^ 53 \<le> s + k"
  shows "\<bar>100 * s2 - (T + t)\<bar> * 2 ^ 53 \<le> (N + 2) * (T + t)"
proof -
  define e where "e = \<bar>100 * s - T\<bar>"
  define p where "p = \<bar>100 * k - t\<bar>"
  define r where "r = \<bar>s2 - (s + k)\<bar>"
  define eB where "eB = e * 2 ^ 53"
  define pB where "pB = p * 2 ^ 53"
  define rB where "rB = r * 2 ^ 53"
  define NT where "NT = N * T"
  define Nt where "Nt = N * t"
  have e1: "100 * s - T \<le> e" "T - 100 * s \<le> e" "0 \<le> e" by (simp_all add: e_def)
  have p1: "100 * k - t \<le> p" "t - 100 * k \<le> p" "0 \<le> p" by (simp_all add: p_def)
  have r1: "s2 - (s + k) \<le> r" "(s + k) - s2 \<le> r" "0 \<le> r" by (simp_all add: r_def)
  have E': "eB \<le> NT" using E by (simp add: eB_def e_def NT_def)
  have P': "pB \<le> t" using P by (simp add: pB_def p_def)
  have R': "rB \<le> s + k" using R by (simp add: rB_def r_def)
  have "1 * t \<le> N * t" using N1 t0 by (intro mult_right_mono)
  then have Nt1: "t \<le> Nt" by (simp add: Nt_def)
  have eT: "e \<le> T" unfolding e_def using Nb E by (rule cents_bounds)
  have "p \<le> pB" using p1(3) by (simp add: pB_def)
  with P' have pt: "p \<le> t" by simp
  have g: "\<bar>100 * s2 - (T + t)\<bar> \<le> 100 * r + e + p" using e1 p1 r1 by linarith
  have "100 * rB + eB + pB \<le> NT + Nt + 2 * T + 2 * t"
    using E' P' R' e1 p1 eT pt Nt1 by linarith
  moreover have "(100 * r + e + p) * 2 ^ 53 = 100 * rB + eB + pB"
    by (simp add: rB_def eB_def pB_def algebra_simps)
  moreover have "(N + 2) * (T + t) = NT + Nt + 2 * T + 2 * t"
    by (simp add: NT_def Nt_def algebra_simps)
  moreover have "\<bar>100 * s2 - (T + t)\<bar> * 2 ^ 53 \<le> (100 * r + e + p) * 2 ^ 53"
    using g by simp
  ultimately show ?thesis by simp
qed

lemma revenue_sum_cents:
  assumes "\<forall>x \<in> set os. 0 \<le> c x \<and>
             or_zero (parseFloat (order_total x)) = round_units (c x * one_units) 100"
    and "(2 * int (length os) + 1) * (\<Sum>x\<leftarrow>os. c x) < 2 ^ 52"
  shows "\<exists>s. revenue_sum os = Fin s \<and> 0 \<le> s \<and>
           \<bar>100 * s - (\<Sum>x\<leftarrow>os. c x) * one_units\<bar> * 2 ^ 53 \<le>
             (2 * int (length os) + 1) * ((\<Sum>x\<leftarrow>os. c x) * one_units)"
  using assms
proof (induction os rule: rev_induct)
  case Nil
  show ?case by (simp add: revenue_sum_def)
next
  case (snoc x xs)
  define C where "C = (\<Sum>y\<leftarrow>xs. c y)"
  define N where "N = 2 * int (length xs) + 1"
  define T where "T = C * one_units"
  define t where "t = c x * one_units"
  have cx: "0 \<le> c x" using snoc.prems(1) by simp
  have C0: "0 \<le> C" unfolding C_def using snoc.prems(1) by (intro sum_list_nonneg) auto
  have N1: "1 \<le> N" by (simp add: N_def)
  from snoc.prems(2) have b: "(N + 2) * (C + c x) < 2 ^ 52"
    by (simp add: N_def C_def algebra_simps)
  have "1 * (C + c x) \<le> (N + 2) * (C + c x)"
    using N1 C0 cx by (intro mult_right_mono) simp_all
  with b have Cc: "C + c x < 2 ^ 52" by simp
  have "N * C \<le> (N + 2) * (C + c x)"
    using N1 C0 cx by (intro mult_mono) simp_all
  with b have bN: "N * C < 2 ^ 52" by simp
  have ih: "\<exists>s. revenue_sum xs = Fin s \<and> 0 \<le> s \<and> \<bar>100 * s - T\<bar> * 2 ^ 53 \<le> N * T"
    using snoc.prems(1) bN unfolding T_def N_def C_def by (intro snoc.IH) auto
  then obtain s where s: "revenue_sum xs = Fin s" "0 \<le> s" "\<bar>100 * s - T\<bar> * 2 ^ 53 \<le> N * T"
    by blast
  have "c x < 2 ^ 52" using Cc C0 by simp
  from cents_amount[OF cx this] obtain k where
    k: "round_units (c x * one_units) 100 = Fin k" "0 \<le> k" "\<bar>100 * k - t\<bar> * 2 ^ 53 \<le> t"
    unfolding t_def by blast
  have T0: "0 \<le> T" using C0 one_units_pos by (simp add: T_def)
  have t0: "0 \<le> t" using cx one_units_pos by (simp add: t_def)
  have Nb: "N * T \<le> 2 ^ 53 * T"
  proof (cases "C = 0")
    case True
    then show ?thesis by (simp add: T_def)
  next
    case False
    with C0 have "1 \<le> C" by simp
    then have "N * 1 \<le> N * C" using N1 by (intro mult_left_mono) simp_all
    with bN have "N \<le> 2 ^ 53" by simp
    then show ?thesis using T0 by (intro mult_right_mono)
  qed
  have "\<bar>100 * s - T\<bar> \<le> T" using Nb s(3) by (rule cents_bounds)
  then have sT: "100 * s \<le> 2 * T" by linarith
  have "1 * t \<le> 2 ^ 53 * t" using t0 by (intro mult_right_mono) simp_all
  then have "\<bar>100 * k - t\<bar> \<le> t" using k(3) by (intro cents_bounds[where N = 1]) simp_all
  then have kt: "100 * k \<le> 2 * t" by linarith
  have "T + t = (C + c x) * one_units" by (simp add: T_def t_def algebra_simps)
  also have "\<dots> \<le> 2 ^ 52 * one_units"
    using Cc one_units_pos by (intro mult_right_mono) simp_all
  finally have Tt: "T + t \<le> 2 ^ 52 * one_units" .
  have "s \<le> 100 * s" "k \<le> 100 * k" using s(2) k(2) by simp_all
  with sT kt have "s + k \<le> 2 * (T + t)" by simp
  also have "\<dots> \<le> 2 * (2 ^ 52 * one_units)" using Tt by simp
  also have "\<dots> = 2 ^ 53 * one_units" by simp
  also note units_below_overflow
  finally have big: "s + k < 2 ^ 2000" .
  have sk0: "0 \<le> s + k" using s(2) k(2) by simp
  from add_nonneg_error[OF sk0 big] obtain s2 where
    s2: "round_units (s + k) 1 = Fin s2" "0 \<le> s2" "\<bar>s2 - (s + k)\<bar> * 2 ^ 53 \<le> s + k"
    by blast
  from snoc.prems(1) k(1) have am: "or_zero (parseFloat (order_total x)) = Fin k" by simp
  have rs: "revenue_sum (xs @ [x]) = Fin s2"
    by (simp add: revenue_sum_append s(1) am s2(1))
  have e1: "(\<Sum>y\<leftarrow>xs @ [x]. c y) * one_units = T + t"
    by (simp add: T_def t_def C_def algebra_simps)
  have e2: "2 * int (length (xs @ [x])) + 1 = N + 2" by (simp add: N_def)
  from cents_step[OF T0 t0 N1 Nb s(3) k(3) s2(3)]
  have "\<bar>100 * s2 - (T + t)\<bar> * 2 ^ 53 \<le> (N + 2) * (T + t)" .
  with rs s2(2) show ?case unfolding e1 e2 by blast
qed


lemma half_unit_window:
  fixes s W U :: int
  assumes "2 * \<bar>100 * s - W\<bar> < U"
  shows "2 * W < 200 * s + U" and "200 * s + U < 2 * W + 2 * U"
proof -
  define e where "e = \<bar>100 * s - W\<bar>"
  have e: "100 * s - W \<le> e" "W - 100 * s \<le> e" by (simp_all add: e_def)
  from assms have "2 * e < U" by (simp only: e_def)
  with e show "2 * W < 200 * s + U" and "200 * s + U < 2 * W + 2 * U" by linarith+
qed

lemma toFixed2_cents:
  assumes s0: "0 \<le> s" and C0: "0 \<le> C" and Cb: "C < 2 ^ 52"
    and close: "2 * \<bar>100 * s - C * one_units\<bar> < one_units"
  shows "toFixed2 (Fin s) = Fixed2 False C"
proof -
  define W where "W = C * one_units"
  have U: "0 < one_units" by (rule one_units_pos)
  from close have cl: "2 * \<bar>100 * s - W\<bar> < one_units" by (simp only: W_def)
  have lo: "2 * W < 200 * s + one_units" using cl by (rule half_unit_window)
  have hi: "200 * s + one_units < 2 * W + 2 * one_units" using cl by (rule half_unit_window)
  have "C * (2 * one_units) \<le> 200 * s + one_units" using lo by (simp add: W_def)
  then have a: "C \<le> (200 * s + one_units) div (2 * one_units)"
    using U by (intro int_le_div) simp_all
  have "200 * s + one_units < (C + 1) * (2 * one_units)"
    using hi by (simp add: W_def algebra_simps)
  then have "(200 * s + one_units) div (2 * one_units) < C + 1"
    using U by (intro int_div_less) simp_all
  with a have d: "(200 * s + one_units) div (2 * one_units) = C" by simp
  have "C * one_units \<le> 2 ^ 52 * one_units"
    using Cb U by (intro mult_right_mono) simp_all
  then have Wb: "W \<le> 2 ^ 52 * one_units" by (simp only: W_def)
  have "s \<le> 200 * s" using s0 by simp
  also have "\<dots> < 2 * W + one_units" using hi by simp
  also have "\<dots> \<le> 2 * (2 ^ 52 * one_units) + one_units" using Wb by simp
  also have "\<dots> = (2 ^ 53 + 1) * one_units" by (simp add: algebra_simps)
  also have "\<dots> \<le> 10 ^ 21 * one_units" using U by (intro mult_right_mono) simp_all
  finally have lt: "\<not> 10 ^ 21 * one_units \<le> \<bar>s\<bar>" using s0 by simp
  have ab: "\<bar>s\<bar> = s" using s0 by simp
  have nn: "\<not> s < 0" using s0 by simp
  show ?thesis
    using lt nn by (simp only: toFixed2.simps ab d if_False)
qed

lemma revenue_cents:
  assumes h: "\<forall>x \<in> set os. 0 \<le> c x \<and>
             or_zero (parseFloat (order_total x)) = round_units (c x * one_units) 100"
    and b: "(2 * int (length os) + 1) * (\<Sum>x\<leftarrow>os. c x) < 2 ^ 52"
  shows "toFixed2 (revenue_sum os) = Fixed2 False (\<Sum>x\<leftarrow>os. c x)"
proof -
  define C where "C = (\<Sum>x\<leftarrow>os. c x)"
  define N where "N = 2 * int (length os) + 1"
  have C0: "0 \<le> C" unfolding C_def using h by (intro sum_list_nonneg) auto
  have N1: "1 \<le> N" by (simp add: N_def)
  have U: "0 < one_units" by (rule one_units_pos)
  from b have NC: "N * C < 2 ^ 52" by (simp add: N_def C_def)
  have "1 * C \<le> N * C" using N1 C0 by (intro mult_right_mono) simp_all
  with NC have Cb: "C < 2 ^ 52" by simp
  from revenue_sum_cents[OF h b] obtain s where
    s: "revenue_sum os = Fin s" "0 \<le> s"
       "\<bar>100 * s - C * one_units\<bar> * 2 ^ 53 \<le> N * (C * one_units)"
    unfolding C_def N_def by blast
  have "N * (C * one_units) = (N * C) * one_units" by simp
  also have "\<dots> < 2 ^ 52 * one_units"
    using NC U by (intro mult_strict_right_mono) simp_all
  finally have "\<bar>100 * s - C * one_units\<bar> * 2 ^ 53 < 2 ^ 52 * one_units"
    using s(3) by linarith
  then have "2 * \<bar>100 * s - C * one_units\<bar> < one_units" by simp
  from toFixed2_cents[OF s(2) C0 Cb this] show ?thesis by (simp add: s(1) C_def)
qed

lemma or_zero_round_units: "or_zero (round_units p q) = round_units p q"
  by (simp add: or_zero_def round_units_def Let_def signed_inf_def)

lemma round_units_zero: "0 < q \<Longrightarrow> round_units 0 q = Fin 0"
  by (simp add: round_units_def round_mag_zero overflow_units_def)

text \<open>
  C2, amended. Let every order add a non-negative amount of whole cents to the sum: its
  parsed total (0 for an unparsable one) is the double nearest to \<open>c / 100\<close> for an integer
  \<open>0 \<le> c\<close>, as it is for every non-negative decimal total with at most two fraction
  digits. Let \<open>2 * length + 1\<close> times the sum of these cents be below \<open>2^52\<close>. Then the
  rounding errors of the parses and of the additions stay below half a cent, \<open>toFixed(2)\<close>
  returns the exact sum of the cents, and every permutation of the list yields the same
  revenue.
\<close>

theorem revenue_of_cent_totals_permutation_invariant:
  assumes "mset os' = mset os"
    and "\<forall>x \<in> set os. 0 \<le> c x \<and>
           or_zero (parseFloat (order_total x)) = round_units (c x * one_units) 100"
    and "(2 * int (length os) + 1) * (\<Sum>x\<leftarrow>os. c x) < 2 ^ 52"
  shows "revenue (orders (overview os' us cs)) = revenue (orders (overview os us cs)) \<and>
         revenue (orders (overview os us cs)) = Fixed2 False (\<Sum>x\<leftarrow>os. c x)"
proof -
  from assms(1) have st: "set os' = set os" by (rule mset_eq_setD)
  from assms(1) have ln: "length os' = length os" by (rule mset_eq_length)
  have "mset (map c os') = mset (map c os)" using assms(1) by simp
  then have sm: "(\<Sum>x\<leftarrow>os'. c x) = (\<Sum>x\<leftarrow>os. c x)" by (metis sum_mset_sum_list)
  have "toFixed2 (revenue_sum os') = Fixed2 False (\<Sum>x\<leftarrow>os'. c x)"
    using assms(2,3) by (intro revenue_cents) (simp_all add: st ln sm)
  moreover have "toFixed2 (revenue_sum os) = Fixed2 False (\<Sum>x\<leftarrow>os. c x)"
    using assms(2,3) by (rule revenue_cents)
  ultimately show ?thesis by (simp add: overview_def sm)
qed

theorem revenue_of_cent_totals_permutation_invariant_witness:
  "revenue (orders (overview
      [null_order\<lparr>order_total := JStr ''7''\<rparr>, null_order,
       null_order\<lparr>order_total := JStr ''0.5''\<rparr>,
       null_order\<lparr>order_total := JStr ''19.99''\<rparr>] [] [])) =
   revenue (orders (overview
      [null_order\<lparr>order_total := JStr ''19.99''\<rparr>,
       null_order\<lparr>order_total := JStr ''0.5''\<rparr>, null_order,
       null_order\<lparr>order_total := JStr ''7''\<rparr>] [] [])) \<and>
   revenue (orders (overview
      [null_order\<lparr>order_total := JStr ''19.99''\<rparr>,
       null_order\<lparr>order_total := JStr ''0.5''\<rparr>, null_order,
       null_order\<lparr>order_total := JStr ''7''\<rparr>] [] [])) = Fixed2 False 2749"
proof -
  let ?c = "\<lambda>x. case order_total x of
              JStr s \<Rightarrow> if s = ''19.99'' then 1999 else if s = ''0.5'' then 50 else 700
            | _ \<Rightarrow> (0::int)"
  let ?os = "[null_order\<lparr>order_total := JStr ''19.99''\<rparr>,
       null_order\<lparr>order_total := JStr ''0.5''\<rparr>, null_order,
       null_order\<lparr>order_total := JStr ''7''\<rparr>]"
  have h1: "round_units (5 * one_units) 10 = round_units (50 * one_units) 100"
    using round_units_scale[of 10 "5 * one_units" 10] by simp
  have h2: "round_units (7 * one_units) 1 = round_units (700 * one_units) 100"
    using round_units_scale[of 100 "7 * one_units" 1] by simp
  have h3: "round_units 0 100 = Fin 0" by (simp add: round_units_zero)
  have p: "mset [null_order\<lparr>order_total := JStr ''7''\<rparr>, null_order,
       null_order\<lparr>order_total := JStr ''0.5''\<rparr>,
       null_order\<lparr>order_total := JStr ''19.99''\<rparr>] = mset ?os"
    by simp
  have a: "\<forall>x \<in> set ?os. 0 \<le> ?c x \<and>
      or_zero (parseFloat (order_total x)) = round_units (?c x * one_units) 100"
    by (simp add: null_order_def parse_string_def parse_unsigned_def parse_exponent_def
        is_white_def is_digit_def digits_val_def Let_def or_zero_round_units h1 h2 h3
        or_zero_def[of NaN])
  have b: "(2 * int (length ?os) + 1) * (\<Sum>x\<leftarrow>?os. ?c x) < 2 ^ 52"
    by (simp add: null_order_def)
  show ?thesis
    using revenue_of_cent_totals_permutation_invariant[OF p a b, of "[]" "[]"]
    by (simp add: null_order_def)
qed


subsection \<open>The conversion funnel\<close>

text \<open>The exponent that brings a ratio between \<open>2^52\<close> and \<open>2^53\<close>.\<close>

lemma normalising_exponent:
  fixes c n :: int
  assumes "0 < c" "c \<le> n" "n < 2 ^ 32"
  shows "\<exists>k::nat. 52 \<le> k \<and> k \<le> 84 \<and> 2 ^ 52 * n \<le> c * 2 ^ k \<and> c * 2 ^ k < 2 ^ 53 * n"
proof -
  define P where "P = (\<lambda>k::nat. 2 ^ 52 * n \<le> c * 2 ^ k)"
  have "2 ^ 52 * n \<le> 2 ^ 52 * (2::int) ^ 32" using assms(3) by (intro mult_left_mono) simp_all
  also have "\<dots> = 1 * (2::int) ^ 84" by simp
  also have "\<dots> \<le> c * 2 ^ 84" using assms(1) by (intro mult_right_mono) simp_all
  finally have P84: "P 84" by (simp add: P_def)
  define k where "k = (LEAST k. P k)"
  have Pk: "P k" unfolding k_def using P84 by (rule LeastI)
  have k84: "k \<le> 84" unfolding k_def using P84 by (rule Least_le)
  have k52: "52 \<le> k"
  proof (rule ccontr)
    assume "\<not> 52 \<le> k"
    then have "k < 52" by simp
    then have "(2::int) ^ k < 2 ^ 52" by (intro power_strict_increasing) simp_all
    then have "c * 2 ^ k < c * 2 ^ 52" using assms(1) by (intro mult_strict_left_mono)
    also have "\<dots> \<le> n * 2 ^ 52" using assms(2) by (intro mult_right_mono) simp_all
    finally show False using Pk by (simp add: P_def mult.commute)
  qed
  then obtain k' where k': "k = Suc k'" by (cases k) auto
  have "\<not> P k'" using not_less_Least[of k' P] by (simp add: k_def[symmetric] k')
  then have "c * 2 ^ k' < 2 ^ 52 * n" by (simp add: P_def)
  then have "2 * (c * 2 ^ k') < 2 * (2 ^ 52 * n)" by simp
  then have "c * 2 ^ k < 2 ^ 53 * n" by (simp add: k')
  with Pk k52 k84 show ?thesis unfolding P_def by blast
qed

lemma percent_exponent:
  fixes M :: int
  assumes "2 ^ 52 \<le> M" "M \<le> 2 ^ 53"
  shows "\<exists>t::nat. 6 \<le> t \<and> t \<le> 7 \<and> 2 ^ 52 * 2 ^ t \<le> 100 * M \<and> 100 * M < 2 ^ 53 * 2 ^ t"
proof (cases "100 * M < 2 ^ 53 * 2 ^ 6")
  case True
  moreover have "2 ^ 52 * 2 ^ 6 \<le> 100 * M" using assms(1) by simp
  ultimately show ?thesis by (intro exI[of _ 6]) simp
next
  case False
  moreover have "100 * M < 2 ^ 53 * 2 ^ 7" using assms(2) by simp
  ultimately show ?thesis by (intro exI[of _ 7]) simp
qed

lemma half_up_error:
  fixes B e h :: int
  assumes "0 < E" "h = (200 * B + E) div (2 * E)"
  shows "2 * \<bar>h * E - 100 * B\<bar> \<le> E"
proof -
  have eq: "(200 * B + E) div (2 * E) * (2 * E) + (200 * B + E) mod (2 * E) = 200 * B + E"
    by (rule div_mult_mod_eq)
  have r: "0 \<le> (200 * B + E) mod (2 * E)" "(200 * B + E) mod (2 * E) < 2 * E"
    using assms(1) by simp_all
  have "(200 * B + E) div (2 * E) * (2 * E) = 2 * (h * E)"
    unfolding assms(2) by (simp only: mult.assoc mult.left_commute[of _ 2])
  with eq have e2: "2 * (h * E) + (200 * B + E) mod (2 * E) = 200 * B + E" by simp
  define X where "X = h * E"
  define R where "R = (200 * B + E) mod (2 * E)"
  from e2 r have "2 * X + R = 200 * B + E" "0 \<le> R" "R < 2 * E"
    by (simp_all add: X_def R_def)
  then have "X - 100 * B \<le> E - (X - 100 * B)" "- (X - 100 * B) \<le> E + (X - 100 * B)"
    by linarith+
  then have "2 * \<bar>X - 100 * B\<bar> \<le> E" by (simp add: abs_if)
  then show ?thesis by (simp add: X_def)
qed


lemma three_term_bound:
  fixes n T E P u v w X :: int
  assumes P: "P = E * T" and pos: "0 \<le> n" "0 < E" "0 < T" and T: "T \<le> 128"
    and P52: "2 ^ 52 \<le> P"
    and u: "2 * \<bar>u\<bar> \<le> E" and v: "2 * \<bar>v\<bar> \<le> T" and w: "2 * \<bar>w\<bar> \<le> n"
    and X: "X * P = n * T * u + 100 * n * v + 10000 * w"
  shows "2 ^ 38 * \<bar>X\<bar> \<le> (2 ^ 37 + 1) * n"
proof -
  have Ppos: "0 < P" using P52 by (smt (verit) zero_less_power)
  have a: "\<bar>n * T * u\<bar> = n * T * \<bar>u\<bar>" using pos by (simp add: abs_mult)
  have b: "\<bar>100 * n * v\<bar> = 100 * n * \<bar>v\<bar>" using pos by (simp add: abs_mult)
  have c: "\<bar>10000 * w\<bar> = 10000 * \<bar>w\<bar>" by (simp add: abs_mult)
  have "\<bar>X\<bar> * P = \<bar>X * P\<bar>" using Ppos by (simp add: abs_mult)
  also have "\<dots> \<le> \<bar>n * T * u\<bar> + \<bar>100 * n * v\<bar> + \<bar>10000 * w\<bar>"
    unfolding X by linarith
  finally have tri: "\<bar>X\<bar> * P \<le> n * T * \<bar>u\<bar> + 100 * n * \<bar>v\<bar> + 10000 * \<bar>w\<bar>"
    by (simp only: a b c)
  have nT: "0 \<le> n * T" using pos by simp
  have "n * T * (2 * \<bar>u\<bar>) \<le> n * T * E" using u nT by (rule mult_left_mono)
  then have t1: "2 * (n * T * \<bar>u\<bar>) \<le> n * P" by (simp add: P algebra_simps)
  have "100 * n * (2 * \<bar>v\<bar>) \<le> 100 * n * T" using v pos(1) by (intro mult_left_mono) simp_all
  also have "\<dots> \<le> 100 * n * 128" using T pos(1) by (intro mult_left_mono) simp_all
  finally have t2: "2 * (100 * n * \<bar>v\<bar>) \<le> 12800 * n" by simp
  have t3: "2 * (10000 * \<bar>w\<bar>) \<le> 10000 * n" using w by simp
  from tri t1 t2 t3 have s: "2 * (\<bar>X\<bar> * P) \<le> n * P + 22800 * n" by linarith
  have "22800 * 2 ^ 37 * n \<le> 2 ^ 52 * n" using pos(1) by (intro mult_right_mono) simp_all
  also have "\<dots> \<le> P * n" using P52 pos(1) by (intro mult_right_mono) simp_all
  finally have small: "2 ^ 37 * (22800 * n) \<le> n * P" by (simp add: algebra_simps)
  have "2 ^ 37 * (2 * (\<bar>X\<bar> * P)) \<le> 2 ^ 37 * (n * P + 22800 * n)"
    using s by (intro mult_left_mono) simp_all
  also have "\<dots> = 2 ^ 37 * (n * P) + 2 ^ 37 * (22800 * n)" by (simp only: distrib_left)
  also have "\<dots> \<le> 2 ^ 37 * (n * P) + n * P" using small by linarith
  finally have "(2 ^ 38 * \<bar>X\<bar>) * P \<le> ((2 ^ 37 + 1) * n) * P"
    by (simp add: algebra_simps)
  then show ?thesis using Ppos by (simp only: mult_le_cancel_right_pos)
qed

lemma stage_rate_bound:
  fixes c n :: nat
  assumes n: "0 < n" and cn: "c \<le> n" and n32: "n < 2 ^ 32"
  shows "\<exists>h. stage_rate c n = Str (Fixed2 False h) \<and>
           2 ^ 38 * \<bar>h * int n - 10000 * int c\<bar> \<le> (2 ^ 37 + 1) * int n"
proof (cases "c = 0")
  case True
  with stage_rate_zero[OF n] show ?thesis by simp
next
  case False
  then have c0: "0 < int c" by simp
  have cn': "int c \<le> int n" using cn by simp
  have n32': "int n < 2 ^ 32" using n32 by (metis of_nat_less_numeral_power_cancel_iff)
  have n0: "0 < int n" using n by simp
  from normalising_exponent[OF c0 cn' n32'] obtain k :: nat
    where k: "52 \<le> k" "k \<le> 84" "2 ^ 52 * int n \<le> int c * 2 ^ k"
      "int c * 2 ^ k < 2 ^ 53 * int n" by blast
  define M where "M = round_ties_even (int c * 2 ^ k) (int n)"
  have M52: "2 ^ 52 \<le> M" unfolding M_def using n0 k(3) by (intro round_ties_even_lower) simp_all
  have M53: "M \<le> 2 ^ 53" unfolding M_def using n0 k(4) by (intro round_ties_even_upper) simp_all
  from percent_exponent[OF M52 M53] obtain t :: nat
    where t: "6 \<le> t" "t \<le> 7" "2 ^ 52 * 2 ^ t \<le> 100 * M" "100 * M < 2 ^ 53 * 2 ^ t" by blast
  define B where "B = round_ties_even (100 * M) (2 ^ t)"
  define h where "h = (200 * B + 2 ^ (k - t)) div (2 * 2 ^ (k - t))"
  have tk: "t \<le> k" using t(2) k(1) by simp
  have ku: "k \<le> unit_exp" using k(2) by (simp add: unit_exp_def)
  have sr: "stage_rate c n = Str (Fixed2 False h)"
    unfolding h_def using n k(3) k(4) ku M_def t(3) t(4) tk B_def by (rule stage_rate_eval)
  have e1: "2 * \<bar>M * int n - int c * 2 ^ k\<bar> \<le> int n"
    unfolding M_def using n0 by (rule round_ties_even_error)
  have e2: "2 * \<bar>B * 2 ^ t - 100 * M\<bar> \<le> 2 ^ t"
    unfolding B_def by (rule round_ties_even_error) simp
  have e3: "2 * \<bar>h * 2 ^ (k - t) - 100 * B\<bar> \<le> 2 ^ (k - t)"
    by (rule half_up_error) (simp_all add: h_def)
  have P: "(2::int) ^ k = 2 ^ (k - t) * 2 ^ t"
    using tk by (simp add: power_add[symmetric])
  have T128: "(2::int) ^ t \<le> 128"
  proof -
    have "(2::int) ^ t \<le> 2 ^ 7" using t(2) by (intro power_increasing) simp_all
    then show ?thesis by simp
  qed
  have P52: "(2::int) ^ 52 \<le> 2 ^ k" using k(1) by (intro power_increasing) simp_all
  have X: "(h * int n - 10000 * int c) * 2 ^ k =
      int n * 2 ^ t * (h * 2 ^ (k - t) - 100 * B) + 100 * int n * (B * 2 ^ t - 100 * M) +
      10000 * (M * int n - int c * 2 ^ k)"
    unfolding P by (simp add: algebra_simps)
  have "2 ^ 38 * \<bar>h * int n - 10000 * int c\<bar> \<le> (2 ^ 37 + 1) * int n"
    using P _ _ _ T128 P52 e3 e2 e1 X by (rule three_term_bound) simp_all
  with sr show ?thesis by blast
qed

lemma status_counts_le:
  "count_status ''pending'' os + count_status ''processing'' os +
   count_status ''delivered'' os + count_status ''cancelled'' os \<le> length os"
  by (induction os) (auto simp: count_status_def)

lemma status_counts_known:
  "list_all known_status os \<Longrightarrow>
   count_status ''pending'' os + count_status ''processing'' os +
   count_status ''delivered'' os + count_status ''cancelled'' os = length os"
  by (induction os) (auto simp: count_status_def known_status_def)

lemma count_status_le: "count_status s os \<le> length os"
  by (simp add: count_status_def)

lemma stage_rate_close:
  assumes "c \<le> n" "n < 2 ^ 32"
  shows "rate_close (stage_rate c n) c n"
proof (cases "n = 0")
  case True
  then show ?thesis by (simp add: stage_rate_def)
next
  case False
  then have "0 < n" by simp
  from stage_rate_bound[OF this assms] \<open>0 < n\<close> show ?thesis by auto
qed

lemma rate_close_hundredths:
  assumes "rate_close r c n" "0 < n"
  shows "2 ^ 38 * \<bar>hundredths r * int n - 10000 * int c\<bar> \<le> (2 ^ 37 + 1) * int n"
proof (cases r)
  case (Num x)
  with assms show ?thesis by simp
next
  case (Str y)
  with assms show ?thesis by (cases y) auto
qed

lemma scaled_abs_bound:
  fixes K x b :: int
  assumes "K * \<bar>x\<bar> \<le> b" "0 \<le> K"
  shows "K * x \<le> b" and "K * (- x) \<le> b"
proof -
  have "K * x \<le> K * \<bar>x\<bar>" using assms(2) by (intro mult_left_mono) simp_all
  with assms(1) show "K * x \<le> b" by linarith
  have "K * (- x) \<le> K * \<bar>x\<bar>" using assms(2) by (intro mult_left_mono) simp_all
  with assms(1) show "K * (- x) \<le> b" by linarith
qed

lemma abs_sum4: "\<bar>a + b + c + d\<bar> \<le> \<bar>a\<bar> + \<bar>b\<bar> + \<bar>c\<bar> + \<bar>d :: int\<bar>"
  by linarith

lemma four_rates_sum:
  fixes h1 h2 h3 h4 c1 c2 c3 c4 n :: int
  assumes n: "0 < n" and C: "c1 + c2 + c3 + c4 \<le> n"
    and b1: "2 ^ 38 * \<bar>h1 * n - 10000 * c1\<bar> \<le> (2 ^ 37 + 1) * n"
    and b2: "2 ^ 38 * \<bar>h2 * n - 10000 * c2\<bar> \<le> (2 ^ 37 + 1) * n"
    and b3: "2 ^ 38 * \<bar>h3 * n - 10000 * c3\<bar> \<le> (2 ^ 37 + 1) * n"
    and b4: "2 ^ 38 * \<bar>h4 * n - 10000 * c4\<bar> \<le> (2 ^ 37 + 1) * n"
  shows "h1 + h2 + h3 + h4 \<le> 10002"
    and "c1 + c2 + c3 + c4 = n \<Longrightarrow> 9998 \<le> h1 + h2 + h3 + h4"
proof -
  define H where "H = h1 + h2 + h3 + h4"
  define Cs where "Cs = c1 + c2 + c3 + c4"
  have split: "H * n - 10000 * Cs =
      (h1 * n - 10000 * c1) + (h2 * n - 10000 * c2) + (h3 * n - 10000 * c3) +
      (h4 * n - 10000 * c4)"
    by (simp add: H_def Cs_def algebra_simps)
  have "\<bar>H * n - 10000 * Cs\<bar> \<le>
      \<bar>h1 * n - 10000 * c1\<bar> + \<bar>h2 * n - 10000 * c2\<bar> +
      \<bar>h3 * n - 10000 * c3\<bar> + \<bar>h4 * n - 10000 * c4\<bar>"
    unfolding split by (rule abs_sum4)
  then have "2 ^ 38 * \<bar>H * n - 10000 * Cs\<bar> \<le>
      2 ^ 38 * \<bar>h1 * n - 10000 * c1\<bar> + 2 ^ 38 * \<bar>h2 * n - 10000 * c2\<bar> +
      2 ^ 38 * \<bar>h3 * n - 10000 * c3\<bar> + 2 ^ 38 * \<bar>h4 * n - 10000 * c4\<bar>"
    by simp
  with b1 b2 b3 b4 have tot: "2 ^ 38 * \<bar>H * n - 10000 * Cs\<bar> \<le> 4 * ((2 ^ 37 + 1) * n)"
    by linarith
  have up: "H \<le> 10002"
  proof -
    from tot have "2 ^ 38 * (H * n - 10000 * Cs) \<le> 4 * ((2 ^ 37 + 1) * n)"
      by (rule scaled_abs_bound) simp
    moreover have "10000 * Cs \<le> 10000 * n" using C by (simp add: Cs_def)
    ultimately have "(2 ^ 38 * H) * n \<le> (2 ^ 38 * 10002 + 4) * n"
      by (simp add: algebra_simps)
    then have "2 ^ 38 * H \<le> 2 ^ 38 * 10002 + 4" using n by (simp only: mult_le_cancel_right_pos)
    then show ?thesis by simp
  qed
  then show "h1 + h2 + h3 + h4 \<le> 10002" by (simp add: H_def)
  show "9998 \<le> h1 + h2 + h3 + h4" if "c1 + c2 + c3 + c4 = n"
  proof -
    from that have Cn: "Cs = n" by (simp add: Cs_def)
    from tot have "2 ^ 38 * (- (H * n - 10000 * Cs)) \<le> 4 * ((2 ^ 37 + 1) * n)"
      by (rule scaled_abs_bound) simp
    then have "(2 ^ 38 * 9998) * n \<le> (2 ^ 38 * H + 4) * n"
      unfolding Cn by (simp add: algebra_simps)
    then have "2 ^ 38 * 9998 \<le> 2 ^ 38 * H + 4" using n by (simp only: mult_le_cancel_right_pos)
    then have "9998 \<le> H" by simp
    then show ?thesis by (simp add: H_def)
  qed
qed

lemmas status_simps =
  status_breakdown_def count_status_def known_status_def pending_order_def
  processing_order_def delivered_order_def null_order_def

lemma three_orders_funnel:
  "conversion_funnel three_orders =
     \<lparr> pending_stage = \<lparr> stage_count = 1, rate = Str (Fixed2 False 3333) \<rparr>,
       processing_stage = \<lparr> stage_count = 1, rate = Str (Fixed2 False 3333) \<rparr>,
       delivered_stage = \<lparr> stage_count = 1, rate = Str (Fixed2 False 3333) \<rparr>,
       cancelled_stage = \<lparr> stage_count = 0, rate = Str (Fixed2 False 0) \<rparr> \<rparr>"
proof -
  have l: "length three_orders = 3" by (simp add: three_orders_def)
  have c: "status_breakdown three_orders =
      \<lparr> pending = 1, processing = 1, delivered = 1, cancelled = 0 \<rparr>"
    by (simp add: three_orders_def status_simps)
  show ?thesis
    unfolding conversion_funnel_def l c Let_def
    by (simp add: stage_def rate_1_of_3[unfolded One_nat_def] stage_rate_zero)
qed

lemma seven_orders_funnel:
  "conversion_funnel seven_orders =
     \<lparr> pending_stage = \<lparr> stage_count = 1, rate = Str (Fixed2 False 1429) \<rparr>,
       processing_stage = \<lparr> stage_count = 3, rate = Str (Fixed2 False 4286) \<rparr>,
       delivered_stage = \<lparr> stage_count = 3, rate = Str (Fixed2 False 4286) \<rparr>,
       cancelled_stage = \<lparr> stage_count = 0, rate = Str (Fixed2 False 0) \<rparr> \<rparr>"
proof -
  have l: "length seven_orders = 7" by (simp add: seven_orders_def)
  have c: "status_breakdown seven_orders =
      \<lparr> pending = 1, processing = 3, delivered = 3, cancelled = 0 \<rparr>"
    by (simp add: seven_orders_def status_simps)
  show ?thesis
    unfolding conversion_funnel_def l c Let_def
    by (simp add: stage_def rate_1_of_7[unfolded One_nat_def] rate_3_of_7 stage_rate_zero)
qed

text \<open>
  C1, as stated, fails. Each rate is rounded to two decimals on its own, so the four
  rates need not add up to 100.00: one pending, one processing and one delivered order
  give 33.33 three times and 0.00, in sum 99.99; one pending, three processing and three
  delivered orders give 14.29, 42.86, 42.86 and 0.00, in sum 100.01, which is also above
  100.00. All statuses in both lists are among the four.
\<close>

theorem funnel_rates_miss_100:
  "three_orders \<noteq> [] \<and> list_all known_status three_orders \<and>
   rate_sum (conversion_funnel three_orders) = 9999 \<and>
   seven_orders \<noteq> [] \<and> list_all known_status seven_orders \<and>
   rate_sum (conversion_funnel seven_orders) = 10001"
  by (simp add: three_orders_funnel seven_orders_funnel rate_sum_def)
    (simp add: three_orders_def seven_orders_def status_simps)

text \<open>
  C1, amended. For every order list (of fewer than \<open>2^32\<close> orders, the bound on the length
  of an array) the four rates sum to at most 100.02, and to at least 99.98 when the list
  is not empty and every status is one of the four. Each rate is the number 0 when the
  list is empty, and otherwise the status count over the total as a percentage fixed to
  two decimals: a string of \<open>h\<close> hundredths with \<open>h\<close> within \<open>1/2 + 2^-38\<close> of
  \<open>10000 * count / total\<close>.
\<close>

theorem funnel_rates_sum_within_two_hundredths:
  assumes "length os < 2 ^ 32"
  shows "rate_sum (conversion_funnel os) \<le> 10002 \<and>
    (os \<noteq> [] \<and> list_all known_status os \<longrightarrow> 9998 \<le> rate_sum (conversion_funnel os)) \<and>
    rate_close (rate (pending_stage (conversion_funnel os)))
      (count_status ''pending'' os) (length os) \<and>
    rate_close (rate (processing_stage (conversion_funnel os)))
      (count_status ''processing'' os) (length os) \<and>
    rate_close (rate (delivered_stage (conversion_funnel os)))
      (count_status ''delivered'' os) (length os) \<and>
    rate_close (rate (cancelled_stage (conversion_funnel os)))
      (count_status ''cancelled'' os) (length os)"
proof -
  let ?n = "length os"
  have cl: "rate_close (stage_rate (count_status s os) ?n) (count_status s os) ?n" for s
    using count_status_le assms by (rule stage_rate_close)
  have rates: "rate (pending_stage (conversion_funnel os)) =
        stage_rate (count_status ''pending'' os) ?n"
      "rate (processing_stage (conversion_funnel os)) =
        stage_rate (count_status ''processing'' os) ?n"
      "rate (delivered_stage (conversion_funnel os)) =
        stage_rate (count_status ''delivered'' os) ?n"
      "rate (cancelled_stage (conversion_funnel os)) =
        stage_rate (count_status ''cancelled'' os) ?n"
    by (simp_all add: conversion_funnel_def stage_def status_breakdown_def Let_def)
  have sums: "rate_sum (conversion_funnel os) \<le> 10002 \<and>
      (os \<noteq> [] \<and> list_all known_status os \<longrightarrow> 9998 \<le> rate_sum (conversion_funnel os))"
  proof (cases "os = []")
    case True
    then show ?thesis
      by (simp add: rate_sum_def conversion_funnel_def stage_def stage_rate_def Let_def)
  next
    case False
    then have n: "0 < int ?n" by simp
    then have n': "0 < ?n" by simp
    have C: "int (count_status ''pending'' os) + int (count_status ''processing'' os) +
        int (count_status ''delivered'' os) + int (count_status ''cancelled'' os) \<le> int ?n"
      using status_counts_le[of os] by linarith
    have Ck: "int (count_status ''pending'' os) + int (count_status ''processing'' os) +
        int (count_status ''delivered'' os) + int (count_status ''cancelled'' os) = int ?n"
      if "list_all known_status os"
      using status_counts_known[OF that] by linarith
    note b = rate_close_hundredths[OF cl n']
    from four_rates_sum[OF n C b b b b] Ck show ?thesis
      by (auto simp: rate_sum_def rates)
  qed
  with cl show ?thesis by (simp add: rates)
qed

theorem funnel_rates_sum_within_two_hundredths_witness:
  "length three_orders < 2 ^ 32 \<and> three_orders \<noteq> [] \<and> list_all known_status three_orders \<and>
   9998 \<le> rate_sum (conversion_funnel three_orders) \<and>
   rate_sum (conversion_funnel three_orders) \<le> 10002 \<and>
   rate_close (rate (pending_stage (conversion_funnel three_orders)))
     (count_status ''pending'' three_orders) (length three_orders)"
proof -
  have l: "length three_orders < 2 ^ 32" by (simp add: three_orders_def)
  have k: "three_orders \<noteq> [] \<and> list_all known_status three_orders"
    by (simp add: three_orders_def status_simps)
  from funnel_rates_sum_within_two_hundredths[OF l] k l show ?thesis by blast
qed

subsection \<open>Empty input\<close>

text \<open>
  C8. Over an empty order sequence every operation returns zero-valued aggregates and no
  error: the overview has \<open>average_value = 0\<close> (the number, with revenue \<open>0.00\<close> and all
  counts 0), the customer lifetime value has \<open>average_ltv = 0\<close> and no customers, the
  funnel has count 0 and rate 0 in all four stages, and the top performers, the revenue
  buckets of \<open>groupByPeriod\<close> and the trend buckets of \<open>groupOrdersByPeriod\<close> are empty
  lists, for every type, limit, unit and time zone, also through the two routes. The
  divisions are guarded by the length tests, so none is evaluated.
\<close>

theorem empty_orders_zero_aggregates:
  "orders_total (orders (overview [] us cs)) = 0 \<and>
   revenue (orders (overview [] us cs)) = Fixed2 False 0 \<and>
   average_value (orders (overview [] us cs)) = Num (Fin 0) \<and>
   by_status (orders (overview [] us cs)) =
     \<lparr> pending = 0, processing = 0, delivered = 0, cancelled = 0 \<rparr> \<and>
   average_ltv (customer_ltv []) = Num (Fin 0) \<and>
   total_customers (customer_ltv []) = 0 \<and>
   top_customers (customer_ltv []) = [] \<and>
   conversion_funnel [] =
     \<lparr> pending_stage = \<lparr> stage_count = 0, rate = Num (Fin 0) \<rparr>,
       processing_stage = \<lparr> stage_count = 0, rate = Num (Fin 0) \<rparr>,
       delivered_stage = \<lparr> stage_count = 0, rate = Num (Fin 0) \<rparr>,
       cancelled_stage = \<lparr> stage_count = 0, rate = Num (Fin 0) \<rparr> \<rparr> \<and>
   top_performers None limit_param [] = Inr [] \<and>
   top_performers (Some ''stores'') limit_param [] = Inr [] \<and>
   top_performers (Some ''delivery'') limit_param [] = Inr [] \<and>
   groupByPeriod tz [] p = Inr [] \<and>
   revenue_route tz period_param [] = Inr [] \<and>
   groupOrdersByPeriod tz [] p' = Inr [] \<and>
   trends_route tz period_param' [] = Inr []"
  using one_units_pos
  by (simp add: overview_def revenue_sum_def status_breakdown_def
      count_status_def customer_ltv_def customer_values_def object_values_Nil js_sort_Nil
      slice_to_Nil conversion_funnel_def stage_def stage_rate_def top_performers_def
      group_orders_def groupByPeriod_def sort_buckets_def revenue_route_def
      groupOrdersByPeriod_def sort_trends_def trends_route_def)

subsection \<open>Top performers\<close>

lemma add_order_upsert:
  "add_order id_of name_of =
     (\<lambda>tbl x. upsert (property_key (id_of x))
        \<lparr> entity_id = id_of x, entity_name = name_or_unknown (name_of x),
          total_orders = 0, total_revenue = Fin 0 \<rparr>
        (\<lambda>r. r\<lparr> total_orders := total_orders r + 1,
                 total_revenue :=
                   fl_add (total_revenue r) (or_zero (parseFloat (order_total x))) \<rparr>)
        tbl)"
  by (simp add: add_order_def fun_eq_iff)

lemma performance_steps:
  "foldl (\<lambda>v x. v\<lparr> total_orders := Suc (total_orders v),
                   total_revenue :=
                     fl_add (total_revenue v) (or_zero (parseFloat (order_total x))) \<rparr>) r F =
     r\<lparr> total_orders := total_orders r + length F,
        total_revenue :=
          foldl (\<lambda>acc x. fl_add acc (or_zero (parseFloat (order_total x))))
            (total_revenue r) F \<rparr>"
  by (induction F arbitrary: r) simp_all

text \<open>The rollup of the orders \<open>F\<close> that share one key.\<close>

lemma group_orders_lookup:
  "map_of (foldl (add_order id_of name_of) [] os) k =
     (if k \<notin> set object_prototype_names \<and>
         filter (\<lambda>x. property_key (id_of x) = k) os \<noteq> []
      then Some
        \<lparr> entity_id = id_of (hd (filter (\<lambda>x. property_key (id_of x) = k) os)),
          entity_name =
            name_or_unknown (name_of (hd (filter (\<lambda>x. property_key (id_of x) = k) os))),
          total_orders = length (filter (\<lambda>x. property_key (id_of x) = k) os),
          total_revenue = revenue_sum (filter (\<lambda>x. property_key (id_of x) = k) os) \<rparr>
      else None)"
  unfolding add_order_upsert
  by (simp add: fold_upsert_lookup performance_steps revenue_sum_def)

lemma in_table_iff:
  assumes "distinct (map fst tbl)"
  shows "v \<in> snd ` set tbl \<longleftrightarrow> (\<exists>k. map_of tbl k = Some v)"
proof
  assume "v \<in> snd ` set tbl"
  then obtain k where "(k, v) \<in> set tbl" by auto
  with assms have "map_of tbl k = Some v" by simp
  then show "\<exists>k. map_of tbl k = Some v" ..
next
  assume "\<exists>k. map_of tbl k = Some v"
  then obtain k where "map_of tbl k = Some v" ..
  then have "(k, v) \<in> set tbl" by (rule map_of_SomeD)
  then show "v \<in> snd ` set tbl" by force
qed

lemma group_orders_member:
  "r \<in> set (group_orders id_of name_of os) \<longleftrightarrow>
     (\<exists>k. k \<notin> set object_prototype_names \<and>
          filter (\<lambda>x. property_key (id_of x) = k) os \<noteq> [] \<and>
          r = \<lparr> entity_id = id_of (hd (filter (\<lambda>x. property_key (id_of x) = k) os)),
                entity_name =
                  name_or_unknown (name_of (hd (filter (\<lambda>x. property_key (id_of x) = k) os))),
                total_orders = length (filter (\<lambda>x. property_key (id_of x) = k) os),
                total_revenue = revenue_sum (filter (\<lambda>x. property_key (id_of x) = k) os) \<rparr>)"
proof -
  let ?tbl = "foldl (add_order id_of name_of) [] os"
  have d: "distinct (map fst ?tbl)"
    unfolding add_order_upsert by (rule fold_upsert_distinct)
  have "r \<in> set (group_orders id_of name_of os) \<longleftrightarrow> (\<exists>k. map_of ?tbl k = Some r)"
    using in_table_iff[OF d] by (simp add: group_orders_def object_values_set)
  then show ?thesis
    by (simp only: group_orders_lookup) (auto split: if_splits)
qed

lemma insert_by_count: "count_list (insert_by cmp x ys) z = count_list (x # ys) z"
  by (induction ys) auto

lemma js_sort_count: "count_list (js_sort cmp xs) z = count_list xs z"
  by (induction xs) (simp_all add: js_sort_def insert_by_count)

lemma by_revenue_positive:
  "is_positive (by_revenue a b) \<longleftrightarrow> num_less (total_revenue a) (total_revenue b)"
  by (simp add: by_revenue_def fl_sub_positive)

lemma num_less_nat: "num_less (js_of_nat a) (js_of_nat b) \<longleftrightarrow> a < b"
  using one_units_pos by (simp add: js_of_nat_def)

lemma by_orders_positive:
  "is_positive (by_orders a b) \<longleftrightarrow>
     num_less (js_of_nat (total_orders a)) (js_of_nat (total_orders b))"
  by (simp add: by_orders_def fl_sub_positive)

lemma sorted_by_revenue:
  assumes "\<forall>r \<in> set rs. total_revenue r \<noteq> NaN"
  shows "sorted_wrt (\<lambda>a b. \<not> num_less (total_revenue a) (total_revenue b))
           (js_sort by_revenue rs)"
  using by_revenue_positive assms by (rule js_sort_sorted)

lemma sorted_by_orders:
  "sorted_wrt (\<lambda>a b. total_orders b \<le> total_orders a) (js_sort by_orders rs)"
proof -
  have "sorted_wrt (\<lambda>a b. \<not> num_less (js_of_nat (total_orders a)) (js_of_nat (total_orders b)))
          (js_sort by_orders rs)"
    using by_orders_positive by (rule js_sort_sorted) (simp add: js_of_nat_def)
  then show ?thesis by (simp add: num_less_nat not_less)
qed

lemma slice_to_nonneg: "slice_to (Some (int n)) xs = take n xs"
  by (simp add: slice_to_def)

lemma hd_filter:
  "filter P xs \<noteq> [] \<Longrightarrow> hd (filter P xs) \<in> set xs \<and> P (hd (filter P xs))"
  by (induction xs) auto

lemma null_key_filter:
  assumes "\<forall>x \<in> set os. id_of x \<noteq> Some ''null''"
  shows "filter (\<lambda>x. property_key (id_of x) = ''null'') os = filter (\<lambda>x. id_of x = None) os"
  using assms by (intro filter_cong) (auto simp: property_key_def split: option.splits)

lemma null_not_inherited: "''null'' \<notin> set object_prototype_names"
  by (simp add: object_prototype_names_def)

lemma missing_id_rollup:
  assumes h1: "\<forall>x \<in> set os. id_of x \<noteq> Some ''null''"
    and h2: "\<forall>x \<in> set os. id_of x = None \<longrightarrow> name_of x = None"
    and h3: "\<exists>x \<in> set os. id_of x = None"
  shows "\<lparr> entity_id = None, entity_name = ''Unknown'',
           total_orders = length (filter (\<lambda>x. id_of x = None) os),
           total_revenue = revenue_sum (filter (\<lambda>x. id_of x = None) os) \<rparr>
         \<in> set (group_orders id_of name_of os)"
    and "\<forall>r \<in> set (group_orders id_of name_of os). entity_id r = None \<longrightarrow>
           r = \<lparr> entity_id = None, entity_name = ''Unknown'',
                 total_orders = length (filter (\<lambda>x. id_of x = None) os),
                 total_revenue = revenue_sum (filter (\<lambda>x. id_of x = None) os) \<rparr>"
proof -
  let ?M = "filter (\<lambda>x. id_of x = None) os"
  let ?r0 = "\<lparr> entity_id = None, entity_name = ''Unknown'', total_orders = length ?M,
               total_revenue = revenue_sum ?M \<rparr>"
  from h3 have ne: "?M \<noteq> []" by (auto simp: filter_empty_conv)
  from hd_filter[OF ne] have hd_os: "hd ?M \<in> set os" and hd_id: "id_of (hd ?M) = None"
    by blast+
  with h2 have hd_name: "name_of (hd ?M) = None" by blast
  have F: "filter (\<lambda>x. property_key (id_of x) = ''null'') os = ?M"
    using h1 by (rule null_key_filter)
  show "?r0 \<in> set (group_orders id_of name_of os)"
    unfolding group_orders_member
    by (rule exI[of _ "''null''"])
      (simp add: F ne hd_id hd_name null_not_inherited name_or_unknown_def)
  show "\<forall>r \<in> set (group_orders id_of name_of os). entity_id r = None \<longrightarrow> r = ?r0"
  proof (intro ballI impI)
    fix r
    assume "r \<in> set (group_orders id_of name_of os)" and idn: "entity_id r = None"
    then obtain k where k: "filter (\<lambda>x. property_key (id_of x) = k) os \<noteq> []"
      and r: "r = \<lparr> entity_id = id_of (hd (filter (\<lambda>x. property_key (id_of x) = k) os)),
                entity_name =
                  name_or_unknown (name_of (hd (filter (\<lambda>x. property_key (id_of x) = k) os))),
                total_orders = length (filter (\<lambda>x. property_key (id_of x) = k) os),
                total_revenue = revenue_sum (filter (\<lambda>x. property_key (id_of x) = k) os) \<rparr>"
      unfolding group_orders_member by blast
    let ?F = "filter (\<lambda>x. property_key (id_of x) = k) os"
    from hd_filter[OF k] have "property_key (id_of (hd ?F)) = k" by blast
    moreover from r idn have "id_of (hd ?F) = None" by simp
    ultimately have "k = ''null''" by (simp add: property_key_def)
    with r F hd_id hd_name show "r = ?r0" by (simp add: name_or_unknown_def)
  qed
qed

text \<open>
  C9. The top performers do not drop an order whose store (or delivery company) reference
  is missing. When no reference is the string \<open>null\<close> and the join gives no name for a
  missing reference, all orders with a missing reference are accumulated in one rollup:
  its id is \<open>null\<close>, its name \<open>Unknown\<close>, its order count the number of such orders and
  its revenue their sum. That rollup is in the sorted list from which the response is
  cut, and it is the only rollup with a missing id.
\<close>

theorem missing_id_orders_form_one_rollup:
  assumes "kind = ''stores'' \<and> id_of = store_id \<and> name_of = stores_name \<and> cmp = by_revenue \<or>
           kind = ''delivery'' \<and> id_of = delivery_company_id \<and>
             name_of = delivery_companies_name \<and> cmp = by_orders"
    and "\<forall>x \<in> set os. id_of x \<noteq> Some ''null''"
    and "\<forall>x \<in> set os. id_of x = None \<longrightarrow> name_of x = None"
    and "\<exists>x \<in> set os. id_of x = None"
  shows "top_performers (Some kind) limit_param os =
           Inr (slice_to (case limit_param of None \<Rightarrow> Some 10 | Some l \<Rightarrow> parseInt l)
                  (js_sort cmp (group_orders id_of name_of os))) \<and>
         \<lparr> entity_id = None, entity_name = ''Unknown'',
           total_orders = length (filter (\<lambda>x. id_of x = None) os),
           total_revenue = revenue_sum (filter (\<lambda>x. id_of x = None) os) \<rparr>
           \<in> set (js_sort cmp (group_orders id_of name_of os)) \<and>
         (\<forall>r \<in> set (js_sort cmp (group_orders id_of name_of os)). entity_id r = None \<longrightarrow>
            r = \<lparr> entity_id = None, entity_name = ''Unknown'',
                  total_orders = length (filter (\<lambda>x. id_of x = None) os),
                  total_revenue = revenue_sum (filter (\<lambda>x. id_of x = None) os) \<rparr>)"
proof -
  from assms(1) have "top_performers (Some kind) limit_param os =
      Inr (slice_to (case limit_param of None \<Rightarrow> Some 10 | Some l \<Rightarrow> parseInt l)
             (js_sort cmp (group_orders id_of name_of os)))"
    by (auto simp: top_performers_def)
  with missing_id_rollup[OF assms(2-4)] show ?thesis
    by (simp only: js_sort_set simp_thms)
qed

theorem missing_id_orders_form_one_rollup_witness:
  "\<lparr> entity_id = None, entity_name = ''Unknown'', total_orders = 2,
     total_revenue =
       revenue_sum [null_order\<lparr>order_total := JStr ''5''\<rparr>,
                    null_order\<lparr>order_total := JStr ''7''\<rparr>] \<rparr>
     \<in> set (js_sort by_revenue
              (group_orders store_id stores_name
                 [null_order\<lparr>order_total := JStr ''5''\<rparr>,
                  null_order\<lparr>store_id := Some ''A'', stores_name := Some ''Alpha'',
                             order_total := JStr ''100''\<rparr>,
                  null_order\<lparr>order_total := JStr ''7''\<rparr>]))"
  using missing_id_orders_form_one_rollup
    [where kind = "''stores''" and id_of = store_id and name_of = stores_name
       and cmp = by_revenue and limit_param = None
       and os = "[null_order\<lparr>order_total := JStr ''5''\<rparr>,
                  null_order\<lparr>store_id := Some ''A'', stores_name := Some ''Alpha'',
                             order_total := JStr ''100''\<rparr>,
                  null_order\<lparr>order_total := JStr ''7''\<rparr>]"]
  by (simp add: null_order_def numeral_2_eq_2)

text \<open>
  C6. When no store rollup has a NaN revenue, the store rollups are returned sorted by
  \<open>total_revenue\<close> descending; the delivery rollups are returned sorted by
  \<open>total_orders\<close> descending. Each sorted list is a rearrangement of the rollups, and the
  response is its first \<open>n\<close> entries, where \<open>n\<close> is the limit parsed from the request or
  10 without one. Without a \<open>type\<close> the stores ranking is returned.
\<close>

theorem top_performers_sorted_and_truncated:
  assumes "\<forall>r \<in> set (group_orders store_id stores_name os). total_revenue r \<noteq> NaN"
    and "limit_param = None \<and> n = 10 \<or> (\<exists>l. limit_param = Some l \<and> parseInt l = Some (int n))"
  shows "(\<forall>r. count_list (js_sort by_revenue (group_orders store_id stores_name os)) r =
              count_list (group_orders store_id stores_name os) r) \<and>
         sorted_wrt (\<lambda>a b. \<not> num_less (total_revenue a) (total_revenue b))
           (js_sort by_revenue (group_orders store_id stores_name os)) \<and>
         top_performers (Some ''stores'') limit_param os =
           Inr (take n (js_sort by_revenue (group_orders store_id stores_name os))) \<and>
         top_performers None limit_param os =
           Inr (take n (js_sort by_revenue (group_orders store_id stores_name os))) \<and>
         (\<forall>r. count_list
                (js_sort by_orders
                   (group_orders delivery_company_id delivery_companies_name os)) r =
              count_list (group_orders delivery_company_id delivery_companies_name os) r) \<and>
         sorted_wrt (\<lambda>a b. total_orders b \<le> total_orders a)
           (js_sort by_orders (group_orders delivery_company_id delivery_companies_name os)) \<and>
         top_performers (Some ''delivery'') limit_param os =
           Inr (take n
                  (js_sort by_orders
                     (group_orders delivery_company_id delivery_companies_name os)))"
proof -
  from assms(2) have lim: "(case limit_param of None \<Rightarrow> Some 10 | Some l \<Rightarrow> parseInt l) = Some (int n)"
    by auto
  show ?thesis
    using sorted_by_revenue[OF assms(1)]
      sorted_by_orders[of "group_orders delivery_company_id delivery_companies_name os"]
    by (simp add: top_performers_def lim slice_to_nonneg js_sort_count)
qed

lemma example_store_rollups:
  "group_orders store_id stores_name example_orders =
     [\<lparr> entity_id = Some ''A'', entity_name = ''Alpha'', total_orders = 2,
         total_revenue = js_of_nat 300 \<rparr>,
      \<lparr> entity_id = Some ''B'', entity_name = ''Beta'', total_orders = 1,
         total_revenue = js_of_nat 500 \<rparr>]"
  by (simp add: example_orders_def null_order_def table_simps parse_simps fl_add_units
      fl_add_zero_units js_of_nat_def)

lemma example_delivery_rollups:
  "group_orders delivery_company_id delivery_companies_name example_orders =
     [\<lparr> entity_id = Some ''X'', entity_name = ''Xpress'', total_orders = 2,
         total_revenue = js_of_nat 300 \<rparr>,
      \<lparr> entity_id = Some ''Y'', entity_name = ''Yonder'', total_orders = 1,
         total_revenue = js_of_nat 500 \<rparr>]"
  by (simp add: example_orders_def null_order_def table_simps parse_simps fl_add_units
      fl_add_zero_units js_of_nat_def)

theorem top_performers_sorted_and_truncated_witness:
  "top_performers (Some ''stores'') None example_orders =
     Inr [\<lparr> entity_id = Some ''B'', entity_name = ''Beta'', total_orders = 1,
             total_revenue = js_of_nat 500 \<rparr>,
          \<lparr> entity_id = Some ''A'', entity_name = ''Alpha'', total_orders = 2,
             total_revenue = js_of_nat 300 \<rparr>] \<and>
   top_performers (Some ''delivery'') None example_orders =
     Inr [\<lparr> entity_id = Some ''X'', entity_name = ''Xpress'', total_orders = 2,
             total_revenue = js_of_nat 300 \<rparr>,
          \<lparr> entity_id = Some ''Y'', entity_name = ''Yonder'', total_orders = 1,
             total_revenue = js_of_nat 500 \<rparr>]"
proof -
  have nn: "\<forall>r \<in> set (group_orders store_id stores_name example_orders).
      total_revenue r \<noteq> NaN"
    by (simp add: example_store_rollups js_of_nat_def)
  have lim: "None = None \<and> (10::nat) = 10 \<or>
      (\<exists>l. (None :: string option) = Some l \<and> parseInt l = Some (int 10))"
    by simp
  from top_performers_sorted_and_truncated[OF nn lim]
  have "top_performers (Some ''stores'') None example_orders =
      Inr (take 10 (js_sort by_revenue (group_orders store_id stores_name example_orders)))"
    and "top_performers (Some ''delivery'') None example_orders =
      Inr (take 10 (js_sort by_orders
        (group_orders delivery_company_id delivery_companies_name example_orders)))"
    by blast+
  then show ?thesis
    by (simp add: example_store_rollups example_delivery_rollups js_sort_def
        by_revenue_positive by_orders_positive num_less_nat)
qed

subsection \<open>Customer lifetime value\<close>

lemma add_customer_order_skip:
  "\<not> has_customer x \<Longrightarrow> add_customer_order tbl x = tbl"
  by (auto simp: add_customer_order_def has_customer_def split: option.splits)

lemma add_customer_order_upsert:
  "has_customer x \<Longrightarrow>
   add_customer_order tbl x =
     upsert (the (created_by x))
       \<lparr> customer_id = the (created_by x), customer_orders = 0, total_spent = Fin 0 \<rparr>
       (\<lambda>r. r\<lparr> customer_orders := customer_orders r + 1,
                total_spent := fl_add (total_spent r) (or_zero (parseFloat (order_total x))) \<rparr>)
       tbl"
  by (auto simp: add_customer_order_def has_customer_def split: option.splits)

lemma customer_table:
  "foldl add_customer_order [] os =
     foldl (\<lambda>tbl x. upsert (the (created_by x))
              \<lparr> customer_id = the (created_by x), customer_orders = 0, total_spent = Fin 0 \<rparr>
              (\<lambda>r. r\<lparr> customer_orders := customer_orders r + 1,
                       total_spent :=
                         fl_add (total_spent r) (or_zero (parseFloat (order_total x))) \<rparr>)
              tbl)
       [] (filter has_customer os)"
proof (induction os rule: rev_induct)
  case Nil
  show ?case by simp
next
  case (snoc x xs)
  show ?case
  proof (cases "has_customer x")
    case True
    with snoc show ?thesis by (simp add: add_customer_order_upsert)
  next
    case False
    with snoc show ?thesis by (simp add: add_customer_order_skip)
  qed
qed

lemma customer_steps:
  "foldl (\<lambda>v x. v\<lparr> customer_orders := Suc (customer_orders v),
                   total_spent :=
                     fl_add (total_spent v) (or_zero (parseFloat (order_total x))) \<rparr>) r F =
     r\<lparr> customer_orders := customer_orders r + length F,
        total_spent :=
          foldl (\<lambda>acc x. fl_add acc (or_zero (parseFloat (order_total x))))
            (total_spent r) F \<rparr>"
  by (induction F arbitrary: r) simp_all

lemma has_customer_the:
  "has_customer x \<Longrightarrow> created_by x = Some (the (created_by x)) \<and> the (created_by x) \<noteq> []"
  by (cases "created_by x") (auto simp: has_customer_def)

lemma customer_filter:
  "filter (\<lambda>x. has_customer x \<and> the (created_by x) = c) os =
     (if c = [] then [] else filter (\<lambda>x. created_by x = Some c) os)"
proof (cases "c = []")
  case True
  have "filter (\<lambda>x. has_customer x \<and> the (created_by x) = c) os = []"
    unfolding filter_empty_conv using True has_customer_the by blast
  with True show ?thesis by simp
next
  case False
  have "filter (\<lambda>x. has_customer x \<and> the (created_by x) = c) os =
      filter (\<lambda>x. created_by x = Some c) os"
  proof (intro filter_cong refl)
    fix x
    show "(has_customer x \<and> the (created_by x) = c) = (created_by x = Some c)"
      using False has_customer_the[of x] by (auto simp: has_customer_def)
  qed
  with False show ?thesis by simp
qed

lemma customer_lookup:
  "map_of (foldl add_customer_order [] os) c =
     (if c \<noteq> [] \<and> c \<notin> set object_prototype_names \<and>
         filter (\<lambda>x. created_by x = Some c) os \<noteq> []
      then Some \<lparr> customer_id = c,
                  customer_orders = length (filter (\<lambda>x. created_by x = Some c) os),
                  total_spent = revenue_sum (filter (\<lambda>x. created_by x = Some c) os) \<rparr>
      else None)"
proof -
  have "hd (filter (\<lambda>x. created_by x = Some c) os) \<in> set os \<and>
      created_by (hd (filter (\<lambda>x. created_by x = Some c) os)) = Some c"
    if "filter (\<lambda>x. created_by x = Some c) os \<noteq> []"
    using hd_filter[OF that] .
  then show ?thesis
    unfolding customer_table
    by (auto simp: fold_upsert_lookup customer_filter customer_steps revenue_sum_def)
qed

lemma customer_values_member:
  "v \<in> set (customer_values os) \<longleftrightarrow>
     (\<exists>c. c \<noteq> [] \<and> c \<notin> set object_prototype_names \<and>
          filter (\<lambda>x. created_by x = Some c) os \<noteq> [] \<and>
          v = \<lparr> customer_id = c,
                customer_orders = length (filter (\<lambda>x. created_by x = Some c) os),
                total_spent = revenue_sum (filter (\<lambda>x. created_by x = Some c) os) \<rparr>)"
proof -
  let ?tbl = "foldl add_customer_order [] os"
  have d: "distinct (map fst ?tbl)"
    unfolding customer_table by (rule fold_upsert_distinct)
  have "v \<in> set (customer_values os) \<longleftrightarrow> (\<exists>c. map_of ?tbl c = Some v)"
    using in_table_iff[OF d] by (simp add: customer_values_def object_values_set)
  then show ?thesis
    by (simp only: customer_lookup) (auto split: if_splits)
qed

lemma customer_ltv_skip:
  assumes "created_by x = None \<or> created_by x = Some []"
  shows "customer_ltv (xs @ x # ys) = customer_ltv (xs @ ys)"
proof -
  from assms have "\<not> has_customer x" by (auto simp: has_customer_def)
  then have "customer_values (xs @ x # ys) = customer_values (xs @ ys)"
    by (simp add: customer_values_def add_customer_order_skip)
  then show ?thesis by (simp add: customer_ltv_def)
qed

lemma by_spent_positive:
  "is_positive (by_spent a b) \<longleftrightarrow> num_less (total_spent a) (total_spent b)"
  by (simp add: by_spent_def fl_sub_positive)

text \<open>
  C7. An order without a \<open>created_by\<close> reference is skipped: with or without it the whole
  response is the same, so it changes neither \<open>total_customers\<close> nor any customer's
  totals. The customers are the references that occur (other than the names a plain
  object inherits), each with the count and the sum of its own orders. \<open>average_ltv\<close> is
  the mean of \<open>total_spent\<close> over these customers, fixed to two decimals, and the number 0
  when there are none. The top customers are the first ten of the customers sorted by
  \<open>total_spent\<close> descending (no \<open>total_spent\<close> being NaN).
\<close>

theorem customer_ltv_excludes_unreferenced:
  assumes "created_by x = None"
  shows "customer_ltv (xs @ x # ys) = customer_ltv (xs @ ys) \<and>
    (\<forall>v. v \<in> set (customer_values os) \<longleftrightarrow>
       (\<exists>c. c \<noteq> [] \<and> c \<notin> set object_prototype_names \<and>
            filter (\<lambda>y. created_by y = Some c) os \<noteq> [] \<and>
            v = \<lparr> customer_id = c,
                  customer_orders = length (filter (\<lambda>y. created_by y = Some c) os),
                  total_spent = revenue_sum (filter (\<lambda>y. created_by y = Some c) os) \<rparr>)) \<and>
    total_customers (customer_ltv os) = length (customer_values os) \<and>
    average_ltv (customer_ltv os) =
      (if customer_values os = [] then Num (Fin 0)
       else Str (toFixed2
              (fl_div (foldl (\<lambda>acc c. fl_add acc (total_spent c)) (Fin 0) (customer_values os))
                 (js_of_nat (length (customer_values os)))))) \<and>
    top_customers (customer_ltv os) = take 10 (js_sort by_spent (customer_values os)) \<and>
    (\<forall>v. count_list (js_sort by_spent (customer_values os)) v =
          count_list (customer_values os) v) \<and>
    ((\<forall>v \<in> set (customer_values os). total_spent v \<noteq> NaN) \<longrightarrow>
       sorted_wrt (\<lambda>a b. \<not> num_less (total_spent a) (total_spent b))
         (js_sort by_spent (customer_values os)))"
proof -
  have skip: "customer_ltv (xs @ x # ys) = customer_ltv (xs @ ys)"
    using assms by (intro customer_ltv_skip) simp
  have srt: "sorted_wrt (\<lambda>a b. \<not> num_less (total_spent a) (total_spent b))
         (js_sort by_spent (customer_values os))"
    if "\<forall>v \<in> set (customer_values os). total_spent v \<noteq> NaN"
    using by_spent_positive that by (rule js_sort_sorted)
  have sl: "slice_to (Some 10) zs = take 10 zs" for zs :: "customer_value list"
    using slice_to_nonneg[of 10 zs] by simp
  show ?thesis
    using skip srt customer_values_member[of _ os]
    by (simp add: customer_ltv_def Let_def sl js_sort_count)
qed

lemmas customer_simps =
  customer_values_def add_customer_order_def upsert_def object_prototype_names_def
  object_values_def is_array_index_def js_sort_def

theorem customer_ltv_excludes_unreferenced_witness:
  "customer_ltv
     ([null_order\<lparr>created_by := Some ''7'', order_total := JStr ''100''\<rparr>] @
      null_order\<lparr>order_total := JStr ''50''\<rparr> #
      [null_order\<lparr>created_by := Some ''3'', order_total := JStr ''500''\<rparr>]) =
   \<lparr> average_ltv = Str (Fixed2 False 30000), total_customers = 2,
     top_customers =
       [\<lparr> customer_id = ''3'', customer_orders = 1, total_spent = js_of_nat 500 \<rparr>,
        \<lparr> customer_id = ''7'', customer_orders = 1, total_spent = js_of_nat 100 \<rparr>] \<rparr>"
proof -
  have nr: "created_by (null_order\<lparr>order_total := JStr ''50''\<rparr>) = None"
    by (simp add: null_order_def)
  have vals: "customer_values
      [null_order\<lparr>created_by := Some ''7'', order_total := JStr ''100''\<rparr>,
       null_order\<lparr>created_by := Some ''3'', order_total := JStr ''500''\<rparr>] =
      [\<lparr> customer_id = ''3'', customer_orders = 1, total_spent = Fin (500 * one_units) \<rparr>,
       \<lparr> customer_id = ''7'', customer_orders = 1, total_spent = Fin (100 * one_units) \<rparr>]"
    by (simp add: null_order_def customer_simps parse_simps fl_add_zero_units)
  have d: "fl_div (Fin (600 * one_units)) (Fin (2 * one_units)) = Fin (300 * one_units)"
    using fl_div_exact[of 2 300] by (simp del: fl_div.simps)
  have f: "toFixed2 (Fin (300 * one_units)) = Fixed2 False 30000"
    using toFixed2_units[of 300] by (simp del: toFixed2.simps)
  have "customer_ltv
      ([null_order\<lparr>created_by := Some ''7'', order_total := JStr ''100''\<rparr>] @
       [null_order\<lparr>created_by := Some ''3'', order_total := JStr ''500''\<rparr>]) =
    \<lparr> average_ltv = Str (Fixed2 False 30000), total_customers = 2,
      top_customers =
       [\<lparr> customer_id = ''3'', customer_orders = 1, total_spent = js_of_nat 500 \<rparr>,
        \<lparr> customer_id = ''7'', customer_orders = 1, total_spent = js_of_nat 100 \<rparr>] \<rparr>"
    by (simp add: customer_ltv_def vals Let_def slice_to_def js_sort_def by_spent_positive
        js_of_nat_def units_less round_units_int d f
        del: fl_div.simps toFixed2.simps)
  with customer_ltv_excludes_unreferenced
      [OF nr, where xs = "[null_order\<lparr>created_by := Some ''7'', order_total := JStr ''100''\<rparr>]"
        and ys = "[null_order\<lparr>created_by := Some ''3'', order_total := JStr ''500''\<rparr>]"]
  show ?thesis by simp
qed

subsection \<open>Week keys\<close>

text \<open>
  C3. The week key is not always the Sunday on or before the date of the order.
  \<open>groupByPeriod\<close> reads the day of the month and the day of the week in the local time of
  the host, steps back to the local Sunday at the same time of day, and prints the UTC
  date of that instant. On a host at UTC the order of Wednesday 2024-03-13 (midnight UTC)
  gets the key \<open>2024-03-10\<close>. On a host five hours behind UTC the same order gets the key
  \<open>2024-03-11\<close>, a Monday: it is Tuesday evening there, and the local Sunday 19:00 is
  Monday 00:00 UTC. On a host one hour ahead of UTC an order of Sunday 2024-03-10, 23:30
  UTC, gets the key \<open>2024-03-09\<close>, a Saturday.
\<close>

theorem week_key_depends_on_host_time_zone:
  "iso_date 1710288000000 = ''2024-03-13'' \<and> week_day 1710288000000 = 3 \<and>
   groupByPeriod 0 [null_order\<lparr>created_at := Some 1710288000000\<rparr>] ''week'' =
     Inr [\<lparr> period = Some ''2024-03-10'', bucket_revenue = Fin 0, bucket_orders = 1 \<rparr>] \<and>
   groupByPeriod (- 300) [null_order\<lparr>created_at := Some 1710288000000\<rparr>] ''week'' =
     Inr [\<lparr> period = Some ''2024-03-11'', bucket_revenue = Fin 0, bucket_orders = 1 \<rparr>] \<and>
   iso_date 1710115200000 = ''2024-03-11'' \<and> week_day 1710115200000 = 1 \<and>
   iso_date 1710113400000 = ''2024-03-10'' \<and> week_day 1710113400000 = 0 \<and>
   groupByPeriod 60 [null_order\<lparr>created_at := Some 1710113400000\<rparr>] ''week'' =
     Inr [\<lparr> period = Some ''2024-03-09'', bucket_revenue = Fin 0, bucket_orders = 1 \<rparr>]"
  by code_simp

subsection \<open>Unknown dimension and unknown unit\<close>

text \<open>
  The route of the top performers answers every type other than \<open>stores\<close> and \<open>delivery\<close>
  with the status 400 and no result.
\<close>

lemma top_performers_invalid_type:
  "ty \<noteq> ''stores'' \<Longrightarrow> ty \<noteq> ''delivery'' \<Longrightarrow>
   top_performers (Some ty) limit_param os = Inl (Status400 ''Invalid type parameter'')"
  by (simp add: top_performers_def)

text \<open>
  C4. An unknown unit is not rejected. The type \<open>bogus\<close> of the top performers gives the
  status 400, but the unit \<open>bogus\<close> leaves the key of every order \<open>undefined\<close>, and both
  grouping functions return one bucket without a period that holds all the orders: the
  revenue route answers with revenue 42 over 2 orders, the trends route with 2 orders,
  both pending.
\<close>

theorem unknown_unit_gives_fallback_bucket:
  "top_performers (Some ''bogus'') (Some ''10'') example_orders =
     Inl (Status400 ''Invalid type parameter'') \<and>
   revenue_route 0 (Some ''bogus'')
     [null_order\<lparr>created_at := Some 0, order_total := JStr ''12''\<rparr>,
      null_order\<lparr>created_at := Some 86400000, order_total := JStr ''30''\<rparr>] =
     Inr [\<lparr> period = None, bucket_revenue = js_of_nat 42, bucket_orders = 2 \<rparr>] \<and>
   trends_route 0 (Some ''bogus'')
     [null_order\<lparr>created_at := Some 0, status := Some ''pending''\<rparr>,
      null_order\<lparr>created_at := Some 86400000, status := Some ''pending''\<rparr>] =
     Inr [[(''period'', Undefined), (''total'', Number (js_of_nat 2)),
           (''pending'', Number (js_of_nat 2)), (''processing'', Number (Fin 0)),
           (''delivered'', Number (Fin 0)), (''cancelled'', Number (Fin 0))]]"
  by (simp add: top_performers_def revenue_route_def groupByPeriod_def add_to_bucket_def
      period_key_def key_name_def upsert_def object_prototype_names_def object_values_def
      is_array_index_def is_digit_def sort_buckets_def null_order_def parse_simps js_of_nat_def
      trends_route_def groupOrdersByPeriod_def add_to_trend_def trend_key_def
      new_trend_bucket_def count_order_def get_property_def set_property_def
      property_or_zero_def property_key_def sort_trends_def round_units_one)

end
